theory Spec2Isabelle
  imports Complex_Main "HOL-Library.Word"
begin

section \<open>C integers and faults\<close>

text \<open>
  The program is C. Its \<open>int\<close> is 32 bits wide and signed; an overflowing signed
  operation, a division by zero and a store outside the addressed buffer are undefined
  behaviour. The model computes on \<open>int\<close> and reports each of the three as a fault
  instead of inventing a result.
\<close>

datatype fault = DivByZero | IntOverflow | OutOfBounds

definition INT_MIN :: int where
  "INT_MIN = - 2147483648"

definition INT_MAX :: int where
  "INT_MAX = 2147483647"

definition int_ok :: "int \<Rightarrow> bool" where
  "int_ok x \<longleftrightarrow> INT_MIN \<le> x \<and> x \<le> INT_MAX"

text \<open>C's \<open>/\<close> on \<open>int\<close> truncates towards zero.\<close>

definition c_quot :: "int \<Rightarrow> int \<Rightarrow> int" where
  "c_quot a b = sgn a * sgn b * (\<bar>a\<bar> div \<bar>b\<bar>)"

definition c_mul :: "int \<Rightarrow> int \<Rightarrow> fault + int" where
  "c_mul a b = (if int_ok (a * b) then Inr (a * b) else Inl IntOverflow)"

definition c_add :: "int \<Rightarrow> int \<Rightarrow> fault + int" where
  "c_add a b = (if int_ok (a + b) then Inr (a + b) else Inl IntOverflow)"

definition c_sub :: "int \<Rightarrow> int \<Rightarrow> fault + int" where
  "c_sub a b = (if int_ok (a - b) then Inr (a - b) else Inl IntOverflow)"

definition c_div :: "int \<Rightarrow> int \<Rightarrow> fault + int" where
  "c_div a b =
     (if b = 0 then Inl DivByZero
      else if int_ok (c_quot a b) then Inr (c_quot a b)
      else Inl IntOverflow)"

section \<open>The frame and the overlay renderer\<close>

text \<open>
  \<open>AVFrame\<close>, as far as \<open>main.c\<close> reads and writes it: the picture size, the stride
  of plane 0 (\<open>linesize[0]\<close>), the bytes of plane 0 (\<open>data[0]\<close>) and the presentation
  timestamp.
\<close>

type_synonym byte = "8 word"

record AVFrame =
  width :: int
  height :: int
  linesize :: int
  data :: "byte list"
  pts :: int

text \<open>\<open>data[0][k] = v\<close>: a store at offset \<open>k\<close> of plane 0.\<close>

definition store :: "AVFrame \<Rightarrow> int \<Rightarrow> byte \<Rightarrow> fault + AVFrame" where
  "store f k v =
     (if 0 \<le> k \<and> k < int (length (data f))
      then Inr (f\<lparr>data := (data f)[nat k := v]\<rparr>)
      else Inl OutOfBounds)"

text \<open>The index expression \<open>i * frame->linesize[0] + j * 3 + c\<close>, evaluated in \<open>int\<close>.\<close>

definition pixel_index :: "AVFrame \<Rightarrow> int \<Rightarrow> int \<Rightarrow> int \<Rightarrow> fault + int" where
  "pixel_index f i j c =
     (case c_mul i (linesize f) of Inl e \<Rightarrow> Inl e | Inr a \<Rightarrow>
       (case c_mul j 3 of Inl e \<Rightarrow> Inl e | Inr b \<Rightarrow>
         (case c_add a b of Inl e \<Rightarrow> Inl e | Inr ab \<Rightarrow> c_add ab c)))"

definition put_channel :: "AVFrame \<Rightarrow> int \<Rightarrow> int \<Rightarrow> int \<Rightarrow> byte \<Rightarrow> fault + AVFrame" where
  "put_channel f i j c v =
     (case pixel_index f i j c of Inl e \<Rightarrow> Inl e | Inr k \<Rightarrow> store f k v)"

text \<open>The body of the inner loop (lines 16 to 18): blue 255, green 0, red 0.\<close>

definition put_pixel :: "AVFrame \<Rightarrow> int \<Rightarrow> int \<Rightarrow> fault + AVFrame" where
  "put_pixel f i j =
     (case put_channel f i j 0 255 of Inl e \<Rightarrow> Inl e | Inr f1 \<Rightarrow>
       (case put_channel f1 i j 1 0 of Inl e \<Rightarrow> Inl e | Inr f2 \<Rightarrow>
          put_channel f2 i j 2 0))"

text \<open>\<open>for (j = ...; j < bar_width; j++)\<close>, entered at column \<open>j\<close>.\<close>

function bar_columns :: "AVFrame \<Rightarrow> int \<Rightarrow> int \<Rightarrow> int \<Rightarrow> fault + AVFrame" where
  "bar_columns f i j bar_width =
     (if j < bar_width
      then (case put_pixel f i j of
              Inl e \<Rightarrow> Inl e
            | Inr f' \<Rightarrow> bar_columns f' i (j + 1) bar_width)
      else Inr f)"
  by pat_completeness auto
termination
  by (relation "measure (\<lambda>(f, i, j, bar_width). nat (bar_width - j))") auto

declare bar_columns.simps [simp del]

text \<open>\<open>for (i = ...; i < y + bar_height; i++)\<close>, entered at row \<open>i\<close>; \<open>row_end\<close> is
  \<open>y + bar_height\<close>.\<close>

function bar_rows :: "AVFrame \<Rightarrow> int \<Rightarrow> int \<Rightarrow> int \<Rightarrow> fault + AVFrame" where
  "bar_rows f i row_end bar_width =
     (if i < row_end
      then (case bar_columns f i 0 bar_width of
              Inl e \<Rightarrow> Inl e
            | Inr f' \<Rightarrow> bar_rows f' (i + 1) row_end bar_width)
      else Inr f)"
  by pat_completeness auto
termination
  by (relation "measure (\<lambda>(f, i, row_end, bar_width). nat (row_end - i))") auto

declare bar_rows.simps [simp del]

text \<open>Line 11: \<open>(frame->width * frame_number) / total_frames\<close>.\<close>

definition bar_width_of :: "AVFrame \<Rightarrow> int \<Rightarrow> int \<Rightarrow> fault + int" where
  "bar_width_of f frame_number total_frames =
     (case c_mul (width f) frame_number of
        Inl e \<Rightarrow> Inl e
      | Inr p \<Rightarrow> c_div p total_frames)"

definition add_progress_bar :: "AVFrame \<Rightarrow> int \<Rightarrow> int \<Rightarrow> fault + AVFrame" where
  "add_progress_bar f frame_number total_frames =
     (let bar_height = 10 in
      (case bar_width_of f frame_number total_frames of Inl e \<Rightarrow> Inl e | Inr bar_width \<Rightarrow>
        (case c_sub (height f) bar_height of Inl e \<Rightarrow> Inl e | Inr y \<Rightarrow>
          (case c_add y bar_height of Inl e \<Rightarrow> Inl e | Inr row_end \<Rightarrow>
             bar_rows f y row_end bar_width))))"

text \<open>
  A frame in the layout the renderer assumes: three bytes per pixel, packed, rows
  \<open>linesize\<close> bytes apart with \<open>linesize\<close> at least \<open>3 * width\<close>, plane 0 holding
  \<open>height\<close> rows, and all of it small enough for \<open>int\<close>.
\<close>

definition frame_ok :: "AVFrame \<Rightarrow> bool" where
  "frame_ok f \<longleftrightarrow>
     0 \<le> width f \<and> 0 \<le> height f \<and> 3 * width f \<le> linesize f \<and>
     int (length (data f)) = height f * linesize f \<and>
     linesize f \<le> INT_MAX \<and> height f \<le> INT_MAX \<and> height f * linesize f \<le> INT_MAX"

text \<open>The colour the bar has in channel \<open>c\<close> of a pixel.\<close>

definition bar_colour :: "int \<Rightarrow> byte" where
  "bar_colour c = (if c = 0 then 255 else 0)"

subsection \<open>What a call of the renderer may change\<close>

text \<open>
  \<open>keeps f f' m\<close>: \<open>f'\<close> has the size, stride, timestamp and buffer length of \<open>f\<close>,
  and every byte of plane 0 at an offset below \<open>m\<close> is the same in both.
  \<open>painted f f' base lo hi\<close>: the same, and the bytes at offsets \<open>base + lo\<close> up to
  \<open>base + hi\<close> (excluded) hold the bar colour, all others are those of \<open>f\<close>.
  \<open>bar_drawn f f' lo hi bw\<close>: in rows \<open>lo\<close> to \<open>hi\<close> (excluded) the first \<open>bw\<close>
  pixels hold the bar colour; every other byte of every row is that of \<open>f\<close>.
\<close>

definition keeps :: "AVFrame \<Rightarrow> AVFrame \<Rightarrow> int \<Rightarrow> bool" where
  "keeps f f' m \<longleftrightarrow>
     width f' = width f \<and> height f' = height f \<and> linesize f' = linesize f \<and>
     pts f' = pts f \<and> length (data f') = length (data f) \<and>
     (\<forall>k. 0 \<le> k \<and> k < m \<longrightarrow> data f' ! nat k = data f ! nat k)"

definition painted :: "AVFrame \<Rightarrow> AVFrame \<Rightarrow> int \<Rightarrow> int \<Rightarrow> int \<Rightarrow> bool" where
  "painted f f' base lo hi \<longleftrightarrow>
     width f' = width f \<and> height f' = height f \<and> linesize f' = linesize f \<and>
     pts f' = pts f \<and> length (data f') = length (data f) \<and>
     (\<forall>k. 0 \<le> k \<and> k < int (length (data f)) \<longrightarrow>
        data f' ! nat k =
          (if base + lo \<le> k \<and> k < base + hi then bar_colour ((k - base) mod 3)
           else data f ! nat k))"

definition bar_drawn :: "AVFrame \<Rightarrow> AVFrame \<Rightarrow> int \<Rightarrow> int \<Rightarrow> int \<Rightarrow> bool" where
  "bar_drawn f f' lo hi bw \<longleftrightarrow>
     width f' = width f \<and> height f' = height f \<and> linesize f' = linesize f \<and>
     pts f' = pts f \<and> length (data f') = length (data f) \<and>
     (\<forall>r c. 0 \<le> r \<and> r < height f \<and> 0 \<le> c \<and> c < linesize f \<longrightarrow>
        data f' ! nat (r * linesize f + c) =
          (if lo \<le> r \<and> r < hi \<and> c < 3 * bw then bar_colour (c mod 3)
           else data f ! nat (r * linesize f + c)))"

section \<open>Time bases and rescaling\<close>

record AVRational =
  num :: int
  den :: int

text \<open>
  Modelled from the spec: \<open>av_rescale_q\<close> belongs to libavutil, which \<open>main.c\<close> calls
  and this repository does not contain. The spec: given time bases (num1/den1) and
  (num2/den2), the rescaled timestamp equals
  round(original * num1 * den2 / (den1 * num2)). Here \<open>round\<close> is the nearest integer,
  the upper one at a tie; nothing below depends on how ties go.
\<close>

definition av_rescale_q :: "int \<Rightarrow> AVRational \<Rightarrow> AVRational \<Rightarrow> int" where
  "av_rescale_q a bq cq =
     round ((of_int (a * num bq * den cq) :: rat) / of_int (den bq * num cq))"

record AVPacket =
  stream_index :: int
  pkt_pts :: int
  pkt_dts :: int

text \<open>
  Modelled from the spec: \<open>av_packet_rescale_ts\<close> belongs to libavcodec. The spec: each
  yielded packet has its timestamps (the presentation/decode pair) rescaled from the
  encoder's time base to the output stream's time base.
\<close>

definition av_packet_rescale_ts :: "AVPacket \<Rightarrow> AVRational \<Rightarrow> AVRational \<Rightarrow> AVPacket" where
  "av_packet_rescale_ts pkt src dst =
     pkt\<lparr>pkt_pts := av_rescale_q (pkt_pts pkt) src dst,
         pkt_dts := av_rescale_q (pkt_dts pkt) src dst\<rparr>"

text \<open>A time base as a number of seconds, and the time bases that are usable as units.\<close>

definition time_base_value :: "AVRational \<Rightarrow> rat" where
  "time_base_value q = of_int (num q) / of_int (den q)"

definition positive :: "AVRational \<Rightarrow> bool" where
  "positive q \<longleftrightarrow> 0 < num q \<and> 0 < den q"

section \<open>The transcode loop\<close>

text \<open>
  The demuxer, the decoder, the encoder and the muxer are libav. A run is determined by
  what they answer, so the answers are the input of the model.

  \<open>decoded\<close> is one successful \<open>avcodec_receive_frame\<close>: the frame it delivers, whether
  \<open>avcodec_send_frame\<close> then accepts that frame, the packet \<open>avcodec_receive_packet\<close>
  then returns with result 0 (if any), and whether \<open>av_interleaved_write_frame\<close>
  succeeds on it.

  \<open>demuxed\<close> is one successful \<open>av_read_frame\<close>: the packet, whether
  \<open>avcodec_send_packet\<close> accepts it, and the frames \<open>avcodec_receive_frame\<close> delivers,
  in order, while this packet is drained; after the last of them it returns a negative
  value. The list of \<open>demuxed\<close> values given to the loop is the input file: after its
  last element \<open>av_read_frame\<close> returns a negative value.
\<close>

record decoded =
  got_frame :: AVFrame
  send_frame_ok :: bool
  got_packet :: "AVPacket option"
  write_ok :: bool

record demuxed =
  packet :: AVPacket
  send_packet_ok :: bool
  yields :: "decoded list"

text \<open>
  The calls a run makes, in order. Packets are named by their ordinal: the \<open>k\<close>-th
  packet read from the input, the \<open>k\<close>-th packet received from the encoder.
\<close>

datatype packet_id = Demuxed nat | Encoded nat

datatype event =
    ReadFrame nat
  | SendPacket nat bool
  | ReceiveFrame AVFrame
  | ProgressBar int int
  | SendFrame AVFrame bool
  | ReceivePacket nat
  | WriteFrame nat AVPacket bool
  | PacketUnref packet_id
  | WriteTrailer

text \<open>The variables of \<open>main\<close> that the loop changes, and the calls made so far.\<close>

record transcoder =
  frame_count :: int
  enc_time_base :: AVRational
  packets_read :: nat
  packets_encoded :: nat
  trace :: "event list"

text \<open>What the loop only reads: set before line 138 and not assigned after.\<close>

record session =
  video_stream_index :: int
  total_frames :: int
  in_time_base :: AVRational
  out_time_base :: AVRational
  out_index :: int

definition logged :: "event \<Rightarrow> transcoder \<Rightarrow> transcoder" where
  "logged e s = s\<lparr>trace := trace s @ [e]\<rparr>"

text \<open>
  Lines 146 to 166, the body of the inner loop, for one delivered frame. The result says
  whether the inner loop goes on (\<open>True\<close>) or is left by the \<open>break\<close> of line 153. A fault
  comes with the state in which it happened.
\<close>

definition process_frame ::
  "session \<Rightarrow> transcoder \<Rightarrow> decoded \<Rightarrow> (fault \<times> transcoder) + (bool \<times> transcoder)" where
  "process_frame cfg s d =
     (case add_progress_bar (got_frame d) (frame_count s) (total_frames cfg) of
        Inl e \<Rightarrow> Inl (e, s)
      | Inr fr \<Rightarrow>
         (let s1 = logged (ProgressBar (frame_count s) (total_frames cfg)) s in
          (case c_add (frame_count s1) 1 of
             Inl e \<Rightarrow> Inl (e, s1)
           | Inr n \<Rightarrow>
              (let s2 = s1\<lparr>frame_count := n\<rparr>;
                   fr' = fr\<lparr>pts := av_rescale_q (pts fr) (in_time_base cfg) (enc_time_base s2)\<rparr>;
                   s3 = logged (SendFrame fr' (send_frame_ok d)) s2
               in if \<not> send_frame_ok d then Inr (False, s3)
                  else (case got_packet d of
                          None \<Rightarrow> Inr (True, s3)
                        | Some out_packet \<Rightarrow>
                           (let k = packets_encoded s3;
                                s4 = logged (ReceivePacket k) (s3\<lparr>packets_encoded := k + 1\<rparr>);
                                p = av_packet_rescale_ts
                                      (out_packet\<lparr>stream_index := out_index cfg\<rparr>)
                                      (enc_time_base s4) (out_time_base cfg);
                                s5 = logged (WriteFrame k p (write_ok d)) s4;
                                s6 = logged (PacketUnref (Encoded k)) s5
                            in Inr (True, s6)))))))"

text \<open>Line 145: \<open>while (avcodec_receive_frame(decoder_context, frame) >= 0)\<close>.\<close>

fun receive_frames ::
  "session \<Rightarrow> transcoder \<Rightarrow> decoded list \<Rightarrow> (fault \<times> transcoder) + transcoder" where
  "receive_frames cfg s [] = Inr s"
| "receive_frames cfg s (d # ds) =
     (case process_frame cfg (logged (ReceiveFrame (got_frame d)) s) d of
        Inl x \<Rightarrow> Inl x
      | Inr (go_on, s') \<Rightarrow> if go_on then receive_frames cfg s' ds else Inr s')"

text \<open>
  Line 138: \<open>while (av_read_frame(input_format_context, &packet) >= 0)\<close>. The \<open>break\<close> of
  line 142 is not inside the inner loop: it leaves this loop, before line 169.
\<close>

fun transcode_loop ::
  "session \<Rightarrow> transcoder \<Rightarrow> demuxed list \<Rightarrow> (fault \<times> transcoder) + transcoder" where
  "transcode_loop cfg s [] = Inr s"
| "transcode_loop cfg s (p # ps) =
     (let k = packets_read s;
          s1 = logged (ReadFrame k) (s\<lparr>packets_read := k + 1\<rparr>)
      in if stream_index (packet p) = video_stream_index cfg
         then (let s2 = logged (SendPacket k (send_packet_ok p)) s1
               in if \<not> send_packet_ok p then Inr s2
                  else (case receive_frames cfg s2 (yields p) of
                          Inl x \<Rightarrow> Inl x
                        | Inr s3 \<Rightarrow> transcode_loop cfg (logged (PacketUnref (Demuxed k)) s3) ps))
         else transcode_loop cfg (logged (PacketUnref (Demuxed k)) s1) ps)"

text \<open>The state a run of the loop ends in, with or without a fault.\<close>

fun final :: "(fault \<times> transcoder) + transcoder \<Rightarrow> transcoder" where
  "final (Inl (e, s)) = s"
| "final (Inr s) = s"

section \<open>The program\<close>

datatype media_type = AVMEDIA_TYPE_VIDEO | AVMEDIA_TYPE_AUDIO | AVMEDIA_TYPE_OTHER

record stream =
  codec_type :: media_type
  time_base :: AVRational
  nb_frames :: int

text \<open>
  What the command line and the set-up calls of lines 24 to 130 give: the argument count,
  for each call whether it succeeds, the streams of the input, whether the output format
  has the flag \<open>AVFMT_NOFILE\<close>, and the index and time base of the output stream.
\<close>

record environment =
  argc :: int
  open_input_ok :: bool
  find_stream_info_ok :: bool
  streams :: "stream list"
  find_decoder_ok :: bool
  decoder_parameters_ok :: bool
  decoder_open_ok :: bool
  output_context_ok :: bool
  new_stream_ok :: bool
  parameters_copy_ok :: bool
  find_encoder_ok :: bool
  encoder_alloc_ok :: bool
  encoder_parameters_ok :: bool
  encoder_open_ok :: bool
  nofile :: bool
  avio_open_ok :: bool
  write_header_ok :: bool
  out_stream_index :: int
  out_stream_time_base :: AVRational

text \<open>Lines 47 to 53: the index of the first video stream, or \<open>-1\<close>.\<close>

fun find_video_stream :: "stream list \<Rightarrow> int \<Rightarrow> int" where
  "find_video_stream [] i = - 1"
| "find_video_stream (st # sts) i =
     (if codec_type st = AVMEDIA_TYPE_VIDEO then i else find_video_stream sts (i + 1))"

text \<open>
  Line 136 stores the 64-bit \<open>nb_frames\<close> in an \<open>int\<close>: the value is kept when it fits,
  and reduced to its low 32 bits otherwise.
\<close>

definition int_of_int64 :: "int \<Rightarrow> int" where
  "int_of_int64 x = (x + 2147483648) mod 4294967296 - 2147483648"

datatype outcome = Exit int | Return int transcoder | Crash fault transcoder

fun exit_code :: "outcome \<Rightarrow> int option" where
  "exit_code (Exit c) = Some c"
| "exit_code (Return c s) = Some c"
| "exit_code (Crash e s) = None"

fun calls :: "outcome \<Rightarrow> event list" where
  "calls (Exit c) = []"
| "calls (Return c s) = trace s"
| "calls (Crash e s) = trace s"

fun encoder_time_base :: "outcome \<Rightarrow> AVRational option" where
  "encoder_time_base (Exit c) = None"
| "encoder_time_base (Return c s) = Some (enc_time_base s)"
| "encoder_time_base (Crash e s) = Some (enc_time_base s)"

definition setup_succeeds :: "environment \<Rightarrow> bool" where
  "setup_succeeds env \<longleftrightarrow>
     argc env = 3 \<and> open_input_ok env \<and> find_stream_info_ok env \<and>
     find_video_stream (streams env) 0 \<noteq> - 1 \<and>
     find_decoder_ok env \<and> decoder_parameters_ok env \<and> decoder_open_ok env \<and>
     output_context_ok env \<and> new_stream_ok env \<and> parameters_copy_ok env \<and>
     find_encoder_ok env \<and> encoder_alloc_ok env \<and> encoder_parameters_ok env \<and>
     encoder_open_ok env \<and> (nofile env \<or> avio_open_ok env) \<and> write_header_ok env"

text \<open>Lines 113 and 132 to 136: the state and the constants the loop starts with.\<close>

definition initial :: transcoder where
  "initial = \<lparr>frame_count = 0, enc_time_base = \<lparr>num = 1, den = 30\<rparr>,
              packets_read = 0, packets_encoded = 0, trace = []\<rparr>"

definition session_of :: "environment \<Rightarrow> session" where
  "session_of env =
     (let video_stream_index = find_video_stream (streams env) 0;
          st = streams env ! nat video_stream_index
      in \<lparr>video_stream_index = video_stream_index,
          total_frames = int_of_int64 (nb_frames st),
          in_time_base = time_base st,
          out_time_base = out_stream_time_base env,
          out_index = out_stream_index env\<rparr>)"

text \<open>Lines 138 to 182.\<close>

definition transcode :: "environment \<Rightarrow> demuxed list \<Rightarrow> outcome" where
  "transcode env input =
     (case transcode_loop (session_of env) initial input of
        Inl (e, s) \<Rightarrow> Crash e s
      | Inr s \<Rightarrow> Return 0 (logged WriteTrailer s))"

definition main :: "environment \<Rightarrow> demuxed list \<Rightarrow> outcome" where
  "main env input =
     (if argc env \<noteq> 3 then Exit 1
      else if \<not> open_input_ok env then Exit 1
      else if \<not> find_stream_info_ok env then Exit 1
      else if find_video_stream (streams env) 0 = - 1 then Exit 1
      else if \<not> find_decoder_ok env then Exit 1
      else if \<not> decoder_parameters_ok env then Exit 1
      else if \<not> decoder_open_ok env then Exit 1
      else if \<not> output_context_ok env then Exit 1
      else if \<not> new_stream_ok env then Exit 1
      else if \<not> parameters_copy_ok env then Exit 1
      else if \<not> find_encoder_ok env then Exit 1
      else if \<not> encoder_alloc_ok env then Exit 1
      else if \<not> encoder_parameters_ok env then Exit 1
      else if \<not> encoder_open_ok env then Exit 1
      else if \<not> nofile env \<and> \<not> avio_open_ok env then Exit 1
      else if \<not> write_header_ok env then Exit 1
      else transcode env input)"

section \<open>What the calls of a run show\<close>

text \<open>
  The timestamps of the frames received from the decoder, the timestamps of the frames
  submitted to the encoder, and the frame numbers the renderer was called with, each in
  the order of the calls.
\<close>

fun received_pts :: "event list \<Rightarrow> int list" where
  "received_pts [] = []"
| "received_pts (ReceiveFrame fr # t) = pts fr # received_pts t"
| "received_pts (e # t) = received_pts t"

fun sent_pts :: "event list \<Rightarrow> int list" where
  "sent_pts [] = []"
| "sent_pts (SendFrame fr ok # t) = pts fr # sent_pts t"
| "sent_pts (e # t) = sent_pts t"

fun bar_numbers :: "event list \<Rightarrow> int list" where
  "bar_numbers [] = []"
| "bar_numbers (ProgressBar n tot # t) = n # bar_numbers t"
| "bar_numbers (e # t) = bar_numbers t"

text \<open>
  Two facts about the calls made so far, as they hold each time the outer loop is about to
  read a packet. \<open>counted\<close>: the counter is the number of frames received, and the
  renderer was called with the frame numbers 0, 1, 2, ... in this order.
  \<open>rescaled cfg tb\<close>: the encoder's time base is \<open>tb\<close> and the timestamps submitted to the
  encoder are those received from the decoder, each rescaled from the input stream's
  time base to \<open>tb\<close>. A run that stops on a fault stops inside the body of the inner
  loop, with the last frame received and neither counted nor submitted: the
  \<open>but_last\<close> variants.
\<close>

definition counted :: "transcoder \<Rightarrow> bool" where
  "counted s \<longleftrightarrow>
     frame_count s = int (length (received_pts (trace s))) \<and>
     bar_numbers (trace s) = map int [0..<length (received_pts (trace s))]"

definition counted_but_last :: "transcoder \<Rightarrow> bool" where
  "counted_but_last s \<longleftrightarrow>
     frame_count s = int (length (received_pts (trace s))) - 1 \<and>
     received_pts (trace s) \<noteq> [] \<and>
     bar_numbers (trace s) = map int [0..<length (bar_numbers (trace s))]"

definition rescaled :: "session \<Rightarrow> AVRational \<Rightarrow> transcoder \<Rightarrow> bool" where
  "rescaled cfg tb s \<longleftrightarrow>
     enc_time_base s = tb \<and>
     sent_pts (trace s) =
       map (\<lambda>p. av_rescale_q p (in_time_base cfg) tb) (received_pts (trace s))"

definition rescaled_but_last :: "session \<Rightarrow> AVRational \<Rightarrow> transcoder \<Rightarrow> bool" where
  "rescaled_but_last cfg tb s \<longleftrightarrow>
     enc_time_base s = tb \<and> received_pts (trace s) \<noteq> [] \<and>
     sent_pts (trace s) =
       map (\<lambda>p. av_rescale_q p (in_time_base cfg) tb) (butlast (received_pts (trace s)))"

text \<open>\<open>holds P Q r\<close>: the final state of \<open>r\<close> satisfies \<open>P\<close>, or \<open>Q\<close> if \<open>r\<close> is a fault.\<close>

fun holds :: "(transcoder \<Rightarrow> bool) \<Rightarrow> (transcoder \<Rightarrow> bool) \<Rightarrow>
    (fault \<times> transcoder) + transcoder \<Rightarrow> bool" where
  "holds P Q (Inl (e, s)) = Q s"
| "holds P Q (Inr s) = P s"

text \<open>The calls that the body of the inner loop makes about a frame.\<close>

fun frame_event :: "event \<Rightarrow> bool" where
  "frame_event (ReceiveFrame fr) = True"
| "frame_event (ProgressBar n tot) = True"
| "frame_event (SendFrame fr ok) = True"
| "frame_event e = False"

text \<open>
  The ordinals of the input packets and of the encoder's packets that were released
  (\<open>av_packet_unref\<close>), in the order of the calls. \<open>all_released\<close>: each packet read
  and each packet received from the encoder so far was released, once.
  \<open>all_but_refused_released\<close>: the same, except that the last packet read was refused by
  the decoder, which is the last call made, and was not released.
\<close>

fun unref_demuxed :: "event list \<Rightarrow> nat list" where
  "unref_demuxed [] = []"
| "unref_demuxed (PacketUnref (Demuxed k) # t) = k # unref_demuxed t"
| "unref_demuxed (e # t) = unref_demuxed t"

fun unref_encoded :: "event list \<Rightarrow> nat list" where
  "unref_encoded [] = []"
| "unref_encoded (PacketUnref (Encoded k) # t) = k # unref_encoded t"
| "unref_encoded (e # t) = unref_encoded t"

definition all_released :: "transcoder \<Rightarrow> bool" where
  "all_released s \<longleftrightarrow>
     unref_demuxed (trace s) = [0..<packets_read s] \<and>
     unref_encoded (trace s) = [0..<packets_encoded s]"

definition all_but_refused_released :: "transcoder \<Rightarrow> bool" where
  "all_but_refused_released s \<longleftrightarrow>
     0 < packets_read s \<and>
     last (trace s) = SendPacket (packets_read s - 1) False \<and>
     unref_demuxed (trace s) = [0..<packets_read s - 1] \<and>
     unref_encoded (trace s) = [0..<packets_encoded s]"

section \<open>Example inputs\<close>

text \<open>
  Frames in the packed three-byte layout: one pixel wide and ten rows high; two pixels
  wide with two bytes of padding per row and twelve rows; 1920 by 1080; four by four.
\<close>

definition tiny_frame :: AVFrame where
  "tiny_frame = \<lparr>width = 1, height = 10, linesize = 3, data = replicate 30 7, pts = 0\<rparr>"

definition padded_frame :: AVFrame where
  "padded_frame = \<lparr>width = 2, height = 12, linesize = 8, data = replicate 96 7, pts = 0\<rparr>"

definition hd_frame :: AVFrame where
  "hd_frame =
     \<lparr>width = 1920, height = 1080, linesize = 5760, data = replicate 6220800 0, pts = 0\<rparr>"

definition short_frame :: AVFrame where
  "short_frame = \<lparr>width = 4, height = 4, linesize = 12, data = replicate 48 0, pts = 0\<rparr>"

text \<open>
  A session and an environment with the video stream at index 0 and time base 1/90000;
  \<open>example_env n\<close> reports \<open>n\<close> as the stream's number of frames. Frames the encoder
  accepts (answering with a packet whose write fails) and refuses; packets of the audio
  stream, of the video stream, and one that the decoder refuses. \<open>example_input\<close> has
  video packets that yield no frame, one frame and two frames.
\<close>

definition example_session :: session where
  "example_session =
     \<lparr>video_stream_index = 0, total_frames = 10,
      in_time_base = \<lparr>num = 1, den = 90000\<rparr>,
      out_time_base = \<lparr>num = 1, den = 15360\<rparr>, out_index = 0\<rparr>"

definition accepted_frame :: decoded where
  "accepted_frame =
     \<lparr>got_frame = tiny_frame\<lparr>pts := 6000\<rparr>, send_frame_ok = True,
      got_packet = Some \<lparr>stream_index = 7, pkt_pts = 2, pkt_dts = 1\<rparr>, write_ok = False\<rparr>"

definition refused_frame :: decoded where
  "refused_frame =
     \<lparr>got_frame = tiny_frame\<lparr>pts := 9000\<rparr>, send_frame_ok = False,
      got_packet = None, write_ok = False\<rparr>"

definition audio_packet :: demuxed where
  "audio_packet =
     \<lparr>packet = \<lparr>stream_index = 1, pkt_pts = 0, pkt_dts = 0\<rparr>, send_packet_ok = True,
      yields = []\<rparr>"

definition video_packet :: "decoded list \<Rightarrow> demuxed" where
  "video_packet ds =
     \<lparr>packet = \<lparr>stream_index = 0, pkt_pts = 0, pkt_dts = 0\<rparr>, send_packet_ok = True,
      yields = ds\<rparr>"

definition refused_packet :: demuxed where
  "refused_packet =
     \<lparr>packet = \<lparr>stream_index = 0, pkt_pts = 0, pkt_dts = 0\<rparr>, send_packet_ok = False,
      yields = []\<rparr>"

definition example_env :: "int \<Rightarrow> environment" where
  "example_env n =
     \<lparr>argc = 3, open_input_ok = True, find_stream_info_ok = True,
      streams = [\<lparr>codec_type = AVMEDIA_TYPE_VIDEO, time_base = \<lparr>num = 1, den = 90000\<rparr>,
                  nb_frames = n\<rparr>,
                 \<lparr>codec_type = AVMEDIA_TYPE_AUDIO, time_base = \<lparr>num = 1, den = 48000\<rparr>,
                  nb_frames = 0\<rparr>],
      find_decoder_ok = True, decoder_parameters_ok = True, decoder_open_ok = True,
      output_context_ok = True, new_stream_ok = True, parameters_copy_ok = True,
      find_encoder_ok = True, encoder_alloc_ok = True, encoder_parameters_ok = True,
      encoder_open_ok = True, nofile = False, avio_open_ok = True, write_header_ok = True,
      out_stream_index = 0, out_stream_time_base = \<lparr>num = 1, den = 15360\<rparr>\<rparr>"

definition example_input :: "demuxed list" where
  "example_input =
     [audio_packet, video_packet [], video_packet [accepted_frame],
      video_packet [accepted_frame, accepted_frame]]"

section \<open>The overlay renderer: proofs\<close>

lemma keeps_refl: "keeps f f m"
  by (simp add: keeps_def)

lemma keeps_trans: "keeps f g m \<Longrightarrow> keeps g h m \<Longrightarrow> keeps f h m"
  by (simp add: keeps_def)

lemma put_channel_Inr:
  assumes "put_channel f i j c v = Inr f'"
  shows "0 \<le> i * linesize f + j * 3 + c \<and> i * linesize f + j * 3 + c < int (length (data f)) \<and>
         f' = f\<lparr>data := (data f)[nat (i * linesize f + j * 3 + c) := v]\<rparr>"
  using assms
  by (auto simp: put_channel_def pixel_index_def store_def c_mul_def c_add_def
           split: sum.splits if_splits)

lemma put_channel_keeps:
  assumes "put_channel f i j c v = Inr f'" "m \<le> i * linesize f + j * 3 + c"
  shows "keeps f f' m"
proof -
  from put_channel_Inr [OF assms(1)]
  have k: "0 \<le> i * linesize f + j * 3 + c"
    and f': "f' = f\<lparr>data := (data f)[nat (i * linesize f + j * 3 + c) := v]\<rparr>"
    by simp_all
  show ?thesis unfolding keeps_def f' using k assms(2) by auto
qed

lemma put_pixel_keeps:
  assumes "put_pixel f i j = Inr f'" "m \<le> i * linesize f + j * 3"
  shows "keeps f f' m"
proof -
  from assms(1) obtain f1 f2 where
    1: "put_channel f i j 0 255 = Inr f1" and
    2: "put_channel f1 i j 1 0 = Inr f2" and
    3: "put_channel f2 i j 2 0 = Inr f'"
    by (auto simp: put_pixel_def split: sum.splits)
  have k1: "keeps f f1 m" using put_channel_keeps [OF 1] assms(2) by simp
  then have l1: "linesize f1 = linesize f" by (simp add: keeps_def)
  have k2: "keeps f1 f2 m" using put_channel_keeps [OF 2] assms(2) l1 by simp
  then have l2: "linesize f2 = linesize f" using l1 by (simp add: keeps_def)
  have k3: "keeps f2 f' m" using put_channel_keeps [OF 3] assms(2) l2 by simp
  show ?thesis using k1 k2 k3 keeps_trans by blast
qed

lemma bar_columns_keeps:
  "bar_columns f i j bw = Inr f' \<Longrightarrow> 0 \<le> j \<Longrightarrow> m \<le> i * linesize f \<Longrightarrow> keeps f f' m"
proof (induction f i j bw rule: bar_columns.induct)
  case (1 f i j bw)
  show ?case
  proof (cases "j < bw")
    case False
    with "1.prems" show ?thesis by (simp add: keeps_refl bar_columns.simps [of f i j bw])
  next
    case True
    with "1.prems"(1) obtain f1 where
      p: "put_pixel f i j = Inr f1" and r: "bar_columns f1 i (j + 1) bw = Inr f'"
      by (auto simp: bar_columns.simps [of f i j bw] split: sum.splits)
    have k1: "keeps f f1 m" using put_pixel_keeps [OF p] "1.prems"(2,3) by simp
    then have "linesize f1 = linesize f" by (simp add: keeps_def)
    with "1.IH" [OF True p r] "1.prems"(2,3) have "keeps f1 f' m" by simp
    with k1 show ?thesis using keeps_trans by blast
  qed
qed

lemma bar_rows_keeps:
  "bar_rows f i row_end bw = Inr f' \<Longrightarrow> 0 \<le> linesize f \<Longrightarrow> y \<le> i \<Longrightarrow> keeps f f' (y * linesize f)"
proof (induction f i row_end bw rule: bar_rows.induct)
  case (1 f i row_end bw)
  show ?case
  proof (cases "i < row_end")
    case False
    with "1.prems" show ?thesis by (simp add: keeps_refl bar_rows.simps [of f i row_end bw])
  next
    case True
    with "1.prems"(1) obtain f1 where
      p: "bar_columns f i 0 bw = Inr f1" and r: "bar_rows f1 (i + 1) row_end bw = Inr f'"
      by (auto simp: bar_rows.simps [of f i row_end bw] split: sum.splits)
    have "y * linesize f \<le> i * linesize f"
      using "1.prems"(2,3) by (simp add: mult_right_mono)
    then have k1: "keeps f f1 (y * linesize f)" using bar_columns_keeps [OF p] by simp
    then have l: "linesize f1 = linesize f" by (simp add: keeps_def)
    from "1.IH" [OF True p r] "1.prems"(2,3) l have "keeps f1 f' (y * linesize f)" by simp
    with k1 show ?thesis using keeps_trans by blast
  qed
qed

lemma add_progress_bar_keeps:
  assumes "add_progress_bar f n t = Inr f'" "0 \<le> linesize f"
  shows "keeps f f' ((height f - 10) * linesize f)"
proof -
  from assms(1) obtain bw row_end where "bar_rows f (height f - 10) row_end bw = Inr f'"
    by (auto simp: add_progress_bar_def c_sub_def c_add_def split: sum.splits if_splits)
  from bar_rows_keeps [OF this assms(2), of "height f - 10"] show ?thesis by simp
qed

lemma int_ok_between: "0 \<le> x \<Longrightarrow> x \<le> INT_MAX \<Longrightarrow> int_ok x"
  by (simp add: int_ok_def INT_MIN_def INT_MAX_def)

lemma put_channel_exact:
  assumes "0 \<le> i * linesize f" "0 \<le> j" "0 \<le> c"
    and "i * linesize f + j * 3 + c < int (length (data f))"
    and "int (length (data f)) \<le> INT_MAX"
  shows "put_channel f i j c v =
         Inr (f\<lparr>data := (data f)[nat (i * linesize f + j * 3 + c) := v]\<rparr>)"
proof -
  have "int_ok (i * linesize f)" "int_ok (j * 3)" "int_ok (i * linesize f + j * 3)"
    "int_ok (i * linesize f + j * 3 + c)"
    using assms by (auto intro!: int_ok_between)
  then show ?thesis
    using assms by (simp add: put_channel_def pixel_index_def c_mul_def c_add_def store_def)
qed

lemma put_pixel_exact:
  assumes "0 \<le> i * linesize f" "0 \<le> j"
    and "i * linesize f + j * 3 + 3 \<le> int (length (data f))"
    and "int (length (data f)) \<le> INT_MAX"
  shows "\<exists>f'. put_pixel f i j = Inr f' \<and> painted f f' (i * linesize f) (3 * j) (3 * j + 3)"
proof -
  let ?b = "i * linesize f + j * 3"
  let ?f1 = "f\<lparr>data := (data f)[nat ?b := 255]\<rparr>"
  let ?f2 = "?f1\<lparr>data := (data ?f1)[nat (?b + 1) := 0]\<rparr>"
  let ?f3 = "?f2\<lparr>data := (data ?f2)[nat (?b + 2) := 0]\<rparr>"
  have lt: "?b + 0 < int (length (data f))" "?b + 1 < int (length (data f))"
    "?b + 2 < int (length (data f))"
    using assms(3) by linarith+
  have 1: "put_channel f i j 0 255 = Inr ?f1"
    using put_channel_exact [of i f j 0 255] assms(1,2,4) lt(1) by simp
  have 2: "put_channel ?f1 i j 1 0 = Inr ?f2"
    using put_channel_exact [of i ?f1 j 1 0] assms(1,2,4) lt(2) by simp
  have 3: "put_channel ?f2 i j 2 0 = Inr ?f3"
    using put_channel_exact [of i ?f2 j 2 0] assms(1,2,4) lt(3) by simp
  have run: "put_pixel f i j = Inr ?f3"
    by (simp only: put_pixel_def 1 2 3 sum.case)
  have "painted f ?f3 (i * linesize f) (3 * j) (3 * j + 3)"
    unfolding painted_def
  proof (intro conjI allI impI)
    fix k assume k: "0 \<le> k \<and> k < int (length (data f))"
    have b0: "0 \<le> ?b" using assms by simp
    consider "k = ?b" | "k = ?b + 1" | "k = ?b + 2" | "k < ?b \<or> ?b + 3 \<le> k" by linarith
    then show "data ?f3 ! nat k =
      (if i * linesize f + 3 * j \<le> k \<and> k < i * linesize f + (3 * j + 3)
       then bar_colour ((k - i * linesize f) mod 3) else data f ! nat k)"
    proof cases
      case 1 then show ?thesis using k b0 by (simp add: bar_colour_def nth_list_update)
    next
      case 2 then show ?thesis using k b0 by (simp add: bar_colour_def nth_list_update)
    next
      case 3 then show ?thesis using k b0 by (simp add: bar_colour_def nth_list_update)
    next
      case 4 then show ?thesis using k b0 by (auto simp: nth_list_update)
    qed
  qed simp_all
  with run show ?thesis by blast
qed

lemma painted_empty: "hi \<le> lo \<Longrightarrow> painted f f base lo hi"
  by (auto simp: painted_def)

lemma painted_extend:
  assumes "painted f f1 base lo mid" "painted f1 f2 base mid hi" "lo \<le> mid" "mid \<le> hi"
  shows "painted f f2 base lo hi"
  using assms unfolding painted_def by auto

lemma bar_columns_exact:
  "0 \<le> i * linesize f \<Longrightarrow> 0 \<le> j \<Longrightarrow> j \<le> bw \<Longrightarrow>
   i * linesize f + 3 * bw \<le> int (length (data f)) \<Longrightarrow> int (length (data f)) \<le> INT_MAX \<Longrightarrow>
   \<exists>f'. bar_columns f i j bw = Inr f' \<and> painted f f' (i * linesize f) (3 * j) (3 * bw)"
proof (induction f i j bw rule: bar_columns.induct)
  case (1 f i j bw)
  show ?case
  proof (cases "j < bw")
    case False
    then have "bar_columns f i j bw = Inr f"
      by (simp add: bar_columns.simps [of f i j bw])
    moreover have "painted f f (i * linesize f) (3 * j) (3 * bw)"
      using False by (intro painted_empty) simp
    ultimately show ?thesis by blast
  next
    case True
    from put_pixel_exact [of i f j] "1.prems" True obtain f1 where
      p: "put_pixel f i j = Inr f1" and
      q: "painted f f1 (i * linesize f) (3 * j) (3 * j + 3)" by auto
    from q have same: "linesize f1 = linesize f" "length (data f1) = length (data f)"
      by (simp_all add: painted_def)
    from "1.IH" [OF True p] "1.prems" True same obtain f' where
      r: "bar_columns f1 i (j + 1) bw = Inr f'" and
      s: "painted f1 f' (i * linesize f) (3 * (j + 1)) (3 * bw)" by auto
    have "painted f f' (i * linesize f) (3 * j) (3 * bw)"
      using painted_extend [OF q, of f' "3 * bw"] s True by (simp add: algebra_simps)
    moreover have "bar_columns f i j bw = Inr f'"
      using True p r by (simp add: bar_columns.simps [of f i j bw])
    ultimately show ?thesis by blast
  qed
qed

lemma bar_drawn_empty: "hi \<le> lo \<Longrightarrow> bar_drawn f f lo hi bw"
  by (auto simp: bar_drawn_def)

lemma bar_drawn_extend:
  assumes "bar_drawn f f1 lo mid bw" "bar_drawn f1 f2 mid hi bw" "lo \<le> mid" "mid \<le> hi"
  shows "bar_drawn f f2 lo hi bw"
  using assms unfolding bar_drawn_def by auto

lemma painted_row:
  assumes p: "painted f f' (i * linesize f) 0 (3 * bw)"
    and i: "0 \<le> i" "i < height f"
    and bw: "3 * bw \<le> linesize f"
    and len: "int (length (data f)) = height f * linesize f"
  shows "bar_drawn f f' i (i + 1) bw"
  unfolding bar_drawn_def
proof (intro conjI allI impI)
  fix r c
  assume rc: "0 \<le> r \<and> r < height f \<and> 0 \<le> c \<and> c < linesize f"
  let ?L = "linesize f"
  let ?k = "r * ?L + c"
  have L: "0 \<le> ?L" using rc by linarith
  have k0: "0 \<le> ?k" using rc L by simp
  have "(r + 1) * ?L \<le> height f * ?L"
    using rc L by (intro mult_right_mono) simp_all
  then have klen: "?k < int (length (data f))"
    using rc len by (simp add: algebra_simps)
  from p k0 klen have eq: "data f' ! nat ?k =
      (if i * ?L + 0 \<le> ?k \<and> ?k < i * ?L + 3 * bw
       then bar_colour ((?k - i * ?L) mod 3) else data f ! nat ?k)"
    unfolding painted_def by blast
  consider "r < i" | "r = i" | "i < r" by linarith
  then show "data f' ! nat ?k =
      (if i \<le> r \<and> r < i + 1 \<and> c < 3 * bw then bar_colour (c mod 3) else data f ! nat ?k)"
  proof cases
    case 1
    then have "(r + 1) * ?L \<le> i * ?L" using L by (intro mult_right_mono) simp_all
    then have "?k < i * ?L" using rc by (simp add: algebra_simps)
    with 1 eq show ?thesis by simp
  next
    case 2
    with eq rc show ?thesis by simp
  next
    case 3
    then have "(i + 1) * ?L \<le> r * ?L" using L by (intro mult_right_mono) simp_all
    then have "i * ?L + 3 * bw \<le> ?k" using rc bw by (simp add: algebra_simps)
    with 3 eq show ?thesis by simp
  qed
qed (use p in \<open>simp_all add: painted_def\<close>)

lemma bar_rows_exact:
  "0 \<le> i \<Longrightarrow> row_end \<le> height f \<Longrightarrow> 0 \<le> bw \<Longrightarrow> 3 * bw \<le> linesize f \<Longrightarrow>
   int (length (data f)) = height f * linesize f \<Longrightarrow> height f * linesize f \<le> INT_MAX \<Longrightarrow>
   \<exists>f'. bar_rows f i row_end bw = Inr f' \<and> bar_drawn f f' i row_end bw"
proof (induction f i row_end bw rule: bar_rows.induct)
  case (1 f i row_end bw)
  show ?case
  proof (cases "i < row_end")
    case False
    then have "bar_rows f i row_end bw = Inr f"
      by (simp add: bar_rows.simps [of f i row_end bw])
    moreover have "bar_drawn f f i row_end bw"
      using False by (intro bar_drawn_empty) simp
    ultimately show ?thesis by blast
  next
    case True
    let ?L = "linesize f"
    have L: "0 \<le> ?L" using "1.prems" by linarith
    have base: "0 \<le> i * ?L" using "1.prems"(1) L by simp
    have "(i + 1) * ?L \<le> height f * ?L"
      using True "1.prems"(2) L by (intro mult_right_mono) simp_all
    then have fit: "i * ?L + 3 * bw \<le> int (length (data f))"
      using "1.prems"(4,5) by (simp add: algebra_simps)
    have small: "int (length (data f)) \<le> INT_MAX" using "1.prems"(5,6) by simp
    from bar_columns_exact [OF base _ "1.prems"(3) fit small] obtain f1 where
      c: "bar_columns f i 0 bw = Inr f1" and
      p: "painted f f1 (i * ?L) (3 * 0) (3 * bw)" by auto
    have d1: "bar_drawn f f1 i (i + 1) bw"
      using painted_row [of f f1 i bw] p "1.prems"(1,2,4,5) True by simp
    then have same: "linesize f1 = ?L" "height f1 = height f"
      "length (data f1) = length (data f)"
      by (simp_all add: bar_drawn_def)
    from "1.IH" [OF True c] "1.prems" same obtain f' where
      r: "bar_rows f1 (i + 1) row_end bw = Inr f'" and d2: "bar_drawn f1 f' (i + 1) row_end bw"
      by auto
    have "bar_drawn f f' i row_end bw"
      using bar_drawn_extend [OF d1 d2] True by simp
    moreover have "bar_rows f i row_end bw = Inr f'"
      using True c r by (simp add: bar_rows.simps [of f i row_end bw])
    ultimately show ?thesis by blast
  qed
qed

lemma c_quot_nonneg:
  assumes "0 \<le> a" "0 < b"
  shows "c_quot a b = a div b"
proof (cases "a = 0")
  case True
  then show ?thesis by (simp add: c_quot_def)
next
  case False
  with assms have "sgn a = 1" "sgn b = 1" "\<bar>a\<bar> = a" "\<bar>b\<bar> = b" by simp_all
  then show ?thesis by (simp add: c_quot_def)
qed

lemma bar_width_of_exact:
  assumes "0 \<le> width f" "0 \<le> n" "0 < tot" "width f * n \<le> INT_MAX"
  shows "bar_width_of f n tot = Inr (width f * n div tot)"
proof -
  let ?p = "width f * n"
  have p0: "0 \<le> ?p" using assms by simp
  then have 1: "c_mul (width f) n = Inr ?p"
    using assms(4) by (simp add: c_mul_def int_ok_between)
  have "?p div tot \<le> ?p div 1" using p0 assms(3)
    by (intro zdiv_mono2) simp_all
  then have "?p div tot \<le> ?p" by simp
  moreover have "0 \<le> ?p div tot" using p0 assms(3) by (simp add: pos_imp_zdiv_nonneg_iff)
  ultimately have "int_ok (?p div tot)" using assms(4) by (intro int_ok_between) simp_all
  then have "c_div ?p tot = Inr (?p div tot)"
    using assms(3) p0 by (simp add: c_div_def c_quot_nonneg)
  with 1 show ?thesis by (simp add: bar_width_of_def)
qed

lemma add_progress_bar_exact:
  assumes ok: "frame_ok f" and h: "10 \<le> height f"
    and n: "0 \<le> n" "n \<le> tot" "0 < tot" and small: "width f * n \<le> INT_MAX"
  shows "\<exists>f'. add_progress_bar f n tot = Inr f' \<and>
              bar_drawn f f' (height f - 10) (height f) (width f * n div tot)"
proof -
  let ?bw = "width f * n div tot"
  from ok have w: "0 \<le> width f" and ls: "3 * width f \<le> linesize f"
    and len: "int (length (data f)) = height f * linesize f"
    and hmax: "height f \<le> INT_MAX" and smax: "height f * linesize f \<le> INT_MAX"
    by (simp_all add: frame_ok_def)
  have bw: "bar_width_of f n tot = Inr ?bw"
    using bar_width_of_exact [OF w n(1,3) small] .
  have "width f * n \<le> width f * tot" using w n(2) by (intro mult_left_mono) simp_all
  then have "?bw \<le> width f * tot div tot" by (intro zdiv_mono1) (use n(3) in simp_all)
  then have bw_le: "?bw \<le> width f" using n(3) by simp
  have bw0: "0 \<le> ?bw" using w n(1,3) by (simp add: pos_imp_zdiv_nonneg_iff)
  have y: "c_sub (height f) 10 = Inr (height f - 10)"
    using h hmax by (simp add: c_sub_def int_ok_between)
  have row_end: "c_add (height f - 10) 10 = Inr (height f)"
    using h hmax by (simp add: c_add_def int_ok_between)
  have run: "add_progress_bar f n tot = bar_rows f (height f - 10) (height f) ?bw"
    by (simp add: add_progress_bar_def bw y row_end)
  from bar_rows_exact [of "height f - 10" "height f" f ?bw] h bw0 bw_le ls len smax
  obtain f' where "bar_rows f (height f - 10) (height f) ?bw = Inr f'"
    "bar_drawn f f' (height f - 10) (height f) ?bw" by auto
  with run show ?thesis by auto
qed

section \<open>The overlay renderer: claims\<close>

lemmas arith_defs =
  c_mul_def c_add_def c_sub_def c_div_def c_quot_def int_ok_def INT_MIN_def INT_MAX_def

lemmas renderer_defs =
  add_progress_bar_def bar_width_of_def bar_rows.simps bar_columns.simps put_pixel_def
  put_channel_def pixel_index_def store_def

text \<open>
  C1, as stated, fails on the code at two kinds of input. The product
  \<open>frame->width * frame_number\<close> is an \<open>int\<close>: on a frame 1920 pixels wide it overflows
  from frame 1118482 on (ten hours of video at 30 frames per second), and the quotient is
  then not \<open>floor(w * n / total)\<close>. And a frame with fewer than ten rows has no bottom ten
  rows: the first store is at a negative offset.
\<close>

theorem progress_bar_width_counterexample:
  "frame_ok hd_frame \<and> (0::int) \<le> 1200000 \<and> (1200000::int) \<le> 1200000 \<and>
   add_progress_bar hd_frame 1200000 1200000 = Inl IntOverflow \<and>
   frame_ok short_frame \<and> (0::int) \<le> 1 \<and> (1::int) \<le> 1 \<and>
   add_progress_bar short_frame 1 1 = Inl OutOfBounds"
  by (simp add: frame_ok_def hd_frame_def short_frame_def renderer_defs arith_defs)

text \<open>
  C1, amended: for every frame in the packed three-byte layout with at least ten rows,
  every total \<open>tot > 0\<close> and every frame number \<open>n\<close> with \<open>0 \<le> n \<le> tot\<close> whose product
  with the width fits an \<open>int\<close>, the renderer returns, the bar width it computes is
  \<open>floor(width * n / tot)\<close>, and the frame it leaves has the bar colour (255, 0, 0) in the
  first \<open>floor(width * n / tot)\<close> pixels of each of the bottom ten rows and is unchanged
  everywhere else. The bar is as wide as the frame when \<open>n = tot\<close> and empty when \<open>n = 0\<close>.
\<close>

theorem progress_bar_drawn:
  assumes "frame_ok f" and "10 \<le> height f"
    and "0 \<le> n" and "n \<le> tot" and "0 < tot" and "width f * n \<le> INT_MAX"
  shows "(\<exists>f'. add_progress_bar f n tot = Inr f' \<and>
               bar_drawn f f' (height f - 10) (height f) (width f * n div tot)) \<and>
         bar_width_of f n tot = Inr (width f * n div tot) \<and>
         (n = tot \<longrightarrow> width f * n div tot = width f) \<and>
         (n = 0 \<longrightarrow> width f * n div tot = 0)"
proof -
  from assms(1) have w: "0 \<le> width f" by (simp add: frame_ok_def)
  have "bar_width_of f n tot = Inr (width f * n div tot)"
    using bar_width_of_exact [OF w assms(3,5,6)] .
  moreover have "n = tot \<longrightarrow> width f * n div tot = width f"
    using assms(5) by simp
  moreover have "n = 0 \<longrightarrow> width f * n div tot = 0" by simp
  ultimately show ?thesis
    using add_progress_bar_exact [OF assms] by blast
qed

theorem progress_bar_drawn_witness:
  "(\<exists>f'. add_progress_bar padded_frame 1 2 = Inr f' \<and> bar_drawn padded_frame f' 2 12 1) \<and>
   bar_width_of padded_frame 1 2 = Inr 1"
  using progress_bar_drawn [of padded_frame 1 2]
  by (simp add: frame_ok_def padded_frame_def INT_MAX_def)

text \<open>
  C2: the renderer has neither the guard nor the clamp the claim asks for. With
  \<open>total_frames = 0\<close> line 11 divides by zero, and with a frame number above the total
  the bar is wider than the frame and the stores of the last row run past the end of
  the buffer. Both on a well-formed frame of one pixel by ten rows.
\<close>

theorem progress_bar_unguarded:
  "frame_ok tiny_frame \<and>
   add_progress_bar tiny_frame 0 0 = Inl DivByZero \<and>
   add_progress_bar tiny_frame 2 1 = Inl OutOfBounds"
  by (simp add: frame_ok_def tiny_frame_def renderer_defs arith_defs)

text \<open>
  Within the bounds under which the bar fits the frame, the renderer returns the frame it
  was given, with the same size, stride, timestamp and buffer length, and every byte
  before the first of the last ten rows is what it was.
\<close>

lemma add_progress_bar_footprint_total:
  assumes "frame_ok f" and "10 \<le> height f"
    and "0 \<le> n" and "n \<le> tot" and "0 < tot" and "width f * n \<le> INT_MAX"
  shows "\<exists>f'. add_progress_bar f n tot = Inr f' \<and> keeps f f' ((height f - 10) * linesize f)"
proof -
  from add_progress_bar_exact [OF assms] obtain f' where
    r: "add_progress_bar f n tot = Inr f'" by blast
  from assms(1) have "0 \<le> 3 * width f" "3 * width f \<le> linesize f"
    by (simp_all add: frame_ok_def)
  then have "0 \<le> linesize f" by linarith
  with r have "keeps f f' ((height f - 10) * linesize f)" by (rule add_progress_bar_keeps)
  with r show ?thesis by blast
qed

text \<open>
  C8: the renderer does not keep to the bottom ten rows of every buffer it is applied
  to. It has no clamp: with a frame number above the total the bar is wider than the
  frame, and on a frame of one pixel by ten rows the second pixel of the last row is
  stored at offset 30 of the 30-byte buffer, in a row the frame does not have. And on a
  frame of four rows the first store is at offset \<open>-72\<close>, before the buffer.
\<close>

theorem progress_bar_stores_outside:
  "frame_ok tiny_frame \<and> int (length (data tiny_frame)) = 30 \<and>
   bar_width_of tiny_frame 2 1 = Inr 2 \<and>
   pixel_index tiny_frame 9 1 0 = Inr 30 \<and>
   add_progress_bar tiny_frame 2 1 = Inl OutOfBounds \<and>
   frame_ok short_frame \<and>
   bar_width_of short_frame 1 1 = Inr 4 \<and>
   pixel_index short_frame (- 6) 0 0 = Inr (- 72) \<and>
   add_progress_bar short_frame 1 1 = Inl OutOfBounds"
  by (simp add: frame_ok_def tiny_frame_def short_frame_def renderer_defs arith_defs)

section \<open>Rescaling: proofs and claim\<close>

lemma av_rescale_q_int:
  assumes "0 < den bq * num cq"
  shows "av_rescale_q a bq cq =
         (2 * (a * num bq * den cq) + den bq * num cq) div (2 * (den bq * num cq))"
proof -
  let ?p = "a * num bq * den cq" and ?q = "den bq * num cq"
  from assms have nz: "den bq \<noteq> 0" "num cq \<noteq> 0" by auto
  have "(of_int ?p :: rat) / of_int ?q + 1 / 2 = of_int (2 * ?p + ?q) / of_int (2 * ?q)"
    using nz by (simp add: field_simps)
  then have "round ((of_int ?p :: rat) / of_int ?q) = \<lfloor>(of_int (2 * ?p + ?q) :: rat) / of_int (2 * ?q)\<rfloor>"
    by (simp add: round_def)
  also have "\<dots> = (2 * ?p + ?q) div (2 * ?q)"
    by (rule floor_divide_of_int_eq)
  finally show ?thesis by (simp add: av_rescale_q_def)
qed

lemma positive_value: "positive q \<Longrightarrow> 0 < time_base_value q"
  by (simp add: positive_def time_base_value_def)

lemma av_rescale_q_ratio:
  assumes "positive bq" "positive cq"
  shows "av_rescale_q a bq cq = round (of_int a * time_base_value bq / time_base_value cq)"
proof -
  from assms have "num bq \<noteq> 0" "den bq \<noteq> 0" "num cq \<noteq> 0" "den cq \<noteq> 0"
    by (auto simp: positive_def)
  then have "(of_int (a * num bq * den cq) :: rat) / of_int (den bq * num cq) =
             of_int a * time_base_value bq / time_base_value cq"
    by (simp add: time_base_value_def field_simps)
  then show ?thesis by (simp add: av_rescale_q_def)
qed

lemma round_trip_bound:
  assumes "positive tin" "positive tenc" "positive tout"
  shows "\<bar>of_int (av_rescale_q (av_rescale_q a tin tenc) tenc tout) -
          of_int a * time_base_value tin / time_base_value tout\<bar>
         \<le> 1 / 2 + time_base_value tenc / time_base_value tout / 2"
proof -
  let ?vi = "time_base_value tin" and ?ve = "time_base_value tenc"
    and ?vo = "time_base_value tout"
  let ?x1 = "of_int a * ?vi / ?ve"
  let ?r1 = "round ?x1"
  let ?x2 = "of_int ?r1 * ?ve / ?vo"
  let ?r2 = "round ?x2"
  have ve: "0 < ?ve" and vo: "0 < ?vo"
    using assms by (simp_all add: positive_value)
  have r1: "av_rescale_q a tin tenc = ?r1"
    using assms by (simp add: av_rescale_q_ratio)
  have r2: "av_rescale_q ?r1 tenc tout = ?r2"
    using assms by (simp add: av_rescale_q_ratio)
  have e1: "\<bar>of_int ?r1 - ?x1\<bar> \<le> 1 / 2" by (rule of_int_round_abs_le)
  have e2: "\<bar>of_int ?r2 - ?x2\<bar> \<le> 1 / 2" by (rule of_int_round_abs_le)
  have "?x2 - of_int a * ?vi / ?vo = (of_int ?r1 - ?x1) * (?ve / ?vo)"
    using ve vo by (simp add: field_simps)
  then have "\<bar>?x2 - of_int a * ?vi / ?vo\<bar> = \<bar>of_int ?r1 - ?x1\<bar> * (?ve / ?vo)"
    using ve vo by (simp add: abs_mult)
  also have "\<dots> \<le> 1 / 2 * (?ve / ?vo)"
    using e1 ve vo by (intro mult_right_mono) simp_all
  finally have e3: "\<bar>?x2 - of_int a * ?vi / ?vo\<bar> \<le> ?ve / ?vo / 2" by simp
  have tri: "\<bar>x - z\<bar> \<le> \<bar>x - y\<bar> + \<bar>y - z\<bar>" for x y z :: rat
    by linarith
  have "\<bar>of_int ?r2 - of_int a * ?vi / ?vo\<bar> \<le>
        \<bar>of_int ?r2 - ?x2\<bar> + \<bar>?x2 - of_int a * ?vi / ?vo\<bar>"
    by (rule tri)
  also have "\<dots> \<le> 1 / 2 + ?ve / ?vo / 2"
    using e2 e3 by (rule add_mono)
  finally show ?thesis unfolding r1 r2 .
qed

text \<open>
  C6, as stated, fails. With the input and the output stream at 1/90000 and the encoder
  at 1/30 (the time base line 113 gives the encoder), the timestamp 1000 is rescaled to
  0 on the way in and stays 0 on the way out: the round trip is off by 1000 units.
\<close>

theorem rescale_round_trip_counterexample:
  "\<bar>av_rescale_q (av_rescale_q 1000 \<lparr>num = 1, den = 90000\<rparr> \<lparr>num = 1, den = 30\<rparr>)
      \<lparr>num = 1, den = 30\<rparr> \<lparr>num = 1, den = 90000\<rparr> - 1000\<bar> = 1000"
  by (simp add: av_rescale_q_int)

text \<open>
  C6, amended: for positive time bases, rescaling a timestamp \<open>a\<close> from \<open>bq\<close> to \<open>cq\<close>
  gives \<open>a * bq / cq\<close> rounded to the nearest integer, and rescaling from the input time
  base to the encoder time base and then to the output time base gives a value that
  differs from the exact conversion of the original into output units by at most half
  an output unit plus half an encoder unit (measured in output units); so by at most
  one output unit when the encoder time base is not coarser than the output time base.
\<close>

theorem rescale_round_trip:
  assumes "positive tin" and "positive tenc" and "positive tout"
  shows "av_rescale_q a tin tenc =
           round (of_int a * time_base_value tin / time_base_value tenc) \<and>
         \<bar>of_int (av_rescale_q (av_rescale_q a tin tenc) tenc tout) -
          of_int a * time_base_value tin / time_base_value tout\<bar>
         \<le> 1 / 2 + time_base_value tenc / time_base_value tout / 2 \<and>
         (time_base_value tenc \<le> time_base_value tout \<longrightarrow>
          \<bar>of_int (av_rescale_q (av_rescale_q a tin tenc) tenc tout) -
           of_int a * time_base_value tin / time_base_value tout\<bar> \<le> 1)"
proof -
  let ?err = "\<bar>of_int (av_rescale_q (av_rescale_q a tin tenc) tenc tout) -
              of_int a * time_base_value tin / time_base_value tout\<bar>"
  let ?q = "time_base_value tenc / time_base_value tout"
  have bound: "?err \<le> 1 / 2 + ?q / 2"
    using round_trip_bound [OF assms] .
  have "?err \<le> 1" if "time_base_value tenc \<le> time_base_value tout"
  proof -
    have "0 < time_base_value tout" using assms(3) by (rule positive_value)
    with that have "?q \<le> 1" by simp
    then have "1 / 2 + ?q / 2 \<le> 1" by simp
    with bound show ?thesis by (rule order_trans)
  qed
  with bound av_rescale_q_ratio [OF assms(1,2)] show ?thesis by blast
qed

theorem rescale_round_trip_witness:
  "\<bar>rat_of_int (av_rescale_q (av_rescale_q 1000 \<lparr>num = 1, den = 90000\<rparr> \<lparr>num = 1, den = 30\<rparr>)
     \<lparr>num = 1, den = 30\<rparr> \<lparr>num = 1, den = 90000\<rparr>) - 1000\<bar> \<le> 1 / 2 + 1500"
proof -
  have p: "positive \<lparr>num = 1, den = 90000\<rparr>" "positive \<lparr>num = 1, den = 30\<rparr>"
    by (simp_all add: positive_def)
  from rescale_round_trip [OF p(1) p(2) p(1), of 1000, THEN conjunct2, THEN conjunct1]
  show ?thesis by (simp add: time_base_value_def)
qed

section \<open>The transcode loop: proofs\<close>

lemma received_pts_append: "received_pts (t @ u) = received_pts t @ received_pts u"
  by (induction t rule: received_pts.induct) simp_all

lemma sent_pts_append: "sent_pts (t @ u) = sent_pts t @ sent_pts u"
  by (induction t rule: sent_pts.induct) simp_all

lemma bar_numbers_append: "bar_numbers (t @ u) = bar_numbers t @ bar_numbers u"
  by (induction t rule: bar_numbers.induct) simp_all

lemmas trace_simps = logged_def received_pts_append sent_pts_append bar_numbers_append

text \<open>The renderer does not touch the timestamp.\<close>

lemma put_channel_pts: "put_channel f i j c v = Inr f' \<Longrightarrow> pts f' = pts f"
  by (drule put_channel_Inr) simp

lemma put_pixel_pts: "put_pixel f i j = Inr f' \<Longrightarrow> pts f' = pts f"
  by (auto simp: put_pixel_def split: sum.splits dest!: put_channel_pts)

lemma bar_columns_pts: "bar_columns f i j bw = Inr f' \<Longrightarrow> pts f' = pts f"
proof (induction f i j bw rule: bar_columns.induct)
  case (1 f i j bw)
  show ?case
  proof (cases "j < bw")
    case False
    with "1.prems" show ?thesis by (simp add: bar_columns.simps [of f i j bw])
  next
    case True
    with "1.prems" obtain f1 where
      p: "put_pixel f i j = Inr f1" and r: "bar_columns f1 i (j + 1) bw = Inr f'"
      by (auto simp: bar_columns.simps [of f i j bw] split: sum.splits)
    from "1.IH" [OF True p r] put_pixel_pts [OF p] show ?thesis by simp
  qed
qed

lemma bar_rows_pts: "bar_rows f i row_end bw = Inr f' \<Longrightarrow> pts f' = pts f"
proof (induction f i row_end bw rule: bar_rows.induct)
  case (1 f i row_end bw)
  show ?case
  proof (cases "i < row_end")
    case False
    with "1.prems" show ?thesis by (simp add: bar_rows.simps [of f i row_end bw])
  next
    case True
    with "1.prems" obtain f1 where
      p: "bar_columns f i 0 bw = Inr f1" and r: "bar_rows f1 (i + 1) row_end bw = Inr f'"
      by (auto simp: bar_rows.simps [of f i row_end bw] split: sum.splits)
    from "1.IH" [OF True p r] bar_columns_pts [OF p] show ?thesis by simp
  qed
qed

lemma add_progress_bar_pts: "add_progress_bar f n tot = Inr f' \<Longrightarrow> pts f' = pts f"
  by (auto simp: add_progress_bar_def split: sum.splits dest: bar_rows_pts)

text \<open>What one pass through the body of the inner loop does to the state.\<close>

lemma process_frame_fault:
  assumes "process_frame cfg s d = Inl (e, s')"
  shows "enc_time_base s' = enc_time_base s \<and> frame_count s' = frame_count s \<and>
         received_pts (trace s') = received_pts (trace s) \<and>
         sent_pts (trace s') = sent_pts (trace s) \<and>
         (bar_numbers (trace s') = bar_numbers (trace s) \<or>
          bar_numbers (trace s') = bar_numbers (trace s) @ [frame_count s])"
  using assms
  by (auto simp: process_frame_def Let_def trace_simps split: sum.splits if_splits option.splits)

lemma process_frame_done:
  assumes "process_frame cfg s d = Inr (go_on, s')"
  shows "enc_time_base s' = enc_time_base s \<and> frame_count s' = frame_count s + 1 \<and>
         received_pts (trace s') = received_pts (trace s) \<and>
         sent_pts (trace s') = sent_pts (trace s) @
           [av_rescale_q (pts (got_frame d)) (in_time_base cfg) (enc_time_base s)] \<and>
         bar_numbers (trace s') = bar_numbers (trace s) @ [frame_count s] \<and>
         packets_read s' = packets_read s"
  using assms
  by (auto simp: process_frame_def Let_def trace_simps c_add_def
      split: sum.splits if_splits option.splits dest: add_progress_bar_pts)

lemma process_frame_go_on:
  "process_frame cfg s d = Inr (b, s') \<Longrightarrow> b = send_frame_ok d"
  by (auto simp: process_frame_def Let_def split: sum.splits if_splits option.splits)

text \<open>
  A property that the body of the inner loop keeps, and that the calls about packets do
  not disturb, holds when the loop ends.
\<close>

lemma receive_frames_holds:
  assumes step: "\<And>s d e b s'. P s \<Longrightarrow>
      (process_frame cfg (logged (ReceiveFrame (got_frame d)) s) d = Inl (e, s') \<longrightarrow> Q s') \<and>
      (process_frame cfg (logged (ReceiveFrame (got_frame d)) s) d = Inr (b, s') \<longrightarrow> P s')"
  shows "P s \<Longrightarrow> holds P Q (receive_frames cfg s ds)"
proof (induction ds arbitrary: s)
  case Nil
  then show ?case by simp
next
  case (Cons d ds)
  show ?case
  proof (cases "process_frame cfg (logged (ReceiveFrame (got_frame d)) s) d")
    case (Inl x)
    obtain e s' where x: "x = (e, s')" by (cases x)
    with Inl step [OF Cons.prems, where d = d and e = e and s' = s'] show ?thesis by simp
  next
    case (Inr y)
    obtain b s' where y: "y = (b, s')" by (cases y)
    with Inr step [OF Cons.prems, where d = d and b = b and s' = s'] have P: "P s'" by simp
    show ?thesis
    proof (cases b)
      case True
      with Inr y Cons.IH [OF P] show ?thesis by simp
    next
      case False
      with Inr y P show ?thesis by simp
    qed
  qed
qed

lemma transcode_loop_holds:
  assumes step: "\<And>s d e b s'. P s \<Longrightarrow>
      (process_frame cfg (logged (ReceiveFrame (got_frame d)) s) d = Inl (e, s') \<longrightarrow> Q s') \<and>
      (process_frame cfg (logged (ReceiveFrame (got_frame d)) s) d = Inr (b, s') \<longrightarrow> P s')"
    and quiet: "\<And>s e. P s \<Longrightarrow> \<not> frame_event e \<Longrightarrow> P (logged e s)"
    and reading: "\<And>s k. P s \<Longrightarrow> P (s\<lparr>packets_read := k\<rparr>)"
  shows "P s \<Longrightarrow> holds P Q (transcode_loop cfg s ps)"
proof (induction ps arbitrary: s)
  case Nil
  then show ?case by simp
next
  case (Cons p ps)
  let ?k = "packets_read s"
  let ?s1 = "logged (ReadFrame ?k) (s\<lparr>packets_read := ?k + 1\<rparr>)"
  let ?s2 = "logged (SendPacket ?k (send_packet_ok p)) ?s1"
  have "P (s\<lparr>packets_read := ?k + 1\<rparr>)" using Cons.prems by (rule reading)
  then have P1: "P ?s1" by (rule quiet) simp
  then have P2: "P ?s2" by (rule quiet) simp
  show ?case
  proof (cases "stream_index (packet p) = video_stream_index cfg")
    case False
    have "P (logged (PacketUnref (Demuxed ?k)) ?s1)" using P1 by (rule quiet) simp
    from Cons.IH [OF this] False show ?thesis by (simp add: Let_def)
  next
    case True
    show ?thesis
    proof (cases "send_packet_ok p")
      case False
      with True P2 show ?thesis by (simp add: Let_def)
    next
      case ok: True
      have h: "holds P Q (receive_frames cfg ?s2 (yields p))"
        using receive_frames_holds [of P cfg Q, OF step P2] .
      show ?thesis
      proof (cases "receive_frames cfg ?s2 (yields p)")
        case (Inl x)
        with h True ok show ?thesis by (simp add: Let_def)
      next
        case (Inr s3)
        with h have "P s3" by simp
        then have "P (logged (PacketUnref (Demuxed ?k)) s3)" by (rule quiet) simp
        from Cons.IH [OF this] Inr True ok show ?thesis by (simp add: Let_def)
      qed
    qed
  qed
qed

lemma counted_step:
  assumes "counted s"
  shows "(process_frame cfg (logged (ReceiveFrame (got_frame d)) s) d = Inl (e, s') \<longrightarrow>
            counted_but_last s') \<and>
         (process_frame cfg (logged (ReceiveFrame (got_frame d)) s) d = Inr (b, s') \<longrightarrow>
            counted s')"
proof (intro conjI impI)
  assume "process_frame cfg (logged (ReceiveFrame (got_frame d)) s) d = Inl (e, s')"
  from process_frame_fault [OF this] assms show "counted_but_last s'"
    by (auto simp: counted_def counted_but_last_def trace_simps)
next
  assume "process_frame cfg (logged (ReceiveFrame (got_frame d)) s) d = Inr (b, s')"
  from process_frame_done [OF this] assms show "counted s'"
    by (auto simp: counted_def trace_simps)
qed

lemma counted_quiet:
  assumes "counted s" "\<not> frame_event e"
  shows "counted (logged e s)"
  using assms by (cases e) (simp_all add: counted_def trace_simps)

lemma transcode_loop_counted:
  "counted s \<Longrightarrow> holds counted counted_but_last (transcode_loop cfg s ps)"
  by (rule transcode_loop_holds [where P = counted and Q = counted_but_last])
     (simp_all add: counted_step counted_quiet, simp add: counted_def)

lemma counted_initial: "counted initial"
  by (simp add: counted_def initial_def)

lemma rescaled_step:
  assumes "rescaled cfg tb s"
  shows "(process_frame cfg (logged (ReceiveFrame (got_frame d)) s) d = Inl (e, s') \<longrightarrow>
            rescaled_but_last cfg tb s') \<and>
         (process_frame cfg (logged (ReceiveFrame (got_frame d)) s) d = Inr (b, s') \<longrightarrow>
            rescaled cfg tb s')"
proof (intro conjI impI)
  assume "process_frame cfg (logged (ReceiveFrame (got_frame d)) s) d = Inl (e, s')"
  from process_frame_fault [OF this] assms show "rescaled_but_last cfg tb s'"
    by (auto simp: rescaled_def rescaled_but_last_def trace_simps)
next
  assume "process_frame cfg (logged (ReceiveFrame (got_frame d)) s) d = Inr (b, s')"
  from process_frame_done [OF this] assms show "rescaled cfg tb s'"
    by (auto simp: rescaled_def trace_simps)
qed

lemma rescaled_quiet:
  assumes "rescaled cfg tb s" "\<not> frame_event e"
  shows "rescaled cfg tb (logged e s)"
  using assms by (cases e) (simp_all add: rescaled_def trace_simps)

lemma transcode_loop_rescaled:
  "rescaled cfg tb s \<Longrightarrow>
   holds (rescaled cfg tb) (rescaled_but_last cfg tb) (transcode_loop cfg s ps)"
  by (rule transcode_loop_holds
        [where P = "rescaled cfg tb" and Q = "rescaled_but_last cfg tb"])
     (simp_all add: rescaled_step rescaled_quiet, simp add: rescaled_def)

lemma rescaled_initial:
  "rescaled cfg \<lparr>num = 1, den = 30\<rparr> initial"
  by (simp add: rescaled_def initial_def)

text \<open>The inner loop stops at a frame the encoder refuses, having counted it.\<close>

lemma receive_frames_stop:
  "\<not> send_frame_ok d \<Longrightarrow>
   receive_frames cfg s (pre @ d # rest) = receive_frames cfg s (pre @ [d])"
proof (induction pre arbitrary: s)
  case Nil
  show ?case
  proof (cases "process_frame cfg (logged (ReceiveFrame (got_frame d)) s) d")
    case (Inl x)
    then show ?thesis by simp
  next
    case (Inr y)
    obtain b s' where y: "y = (b, s')" by (cases y)
    with Inr process_frame_go_on Nil have "\<not> b" by blast
    with Inr y show ?thesis by simp
  qed
next
  case (Cons x pre)
  show ?case
  proof (cases "process_frame cfg (logged (ReceiveFrame (got_frame x)) s) x")
    case (Inl e)
    then show ?thesis by simp
  next
    case (Inr y)
    obtain b s' where y: "y = (b, s')" by (cases y)
    with Inr Cons.IH [OF Cons.prems, of s'] show ?thesis by simp
  qed
qed

lemma receive_frames_count:
  "receive_frames cfg s ds = Inr s' \<Longrightarrow> \<forall>x\<in>set (butlast ds). send_frame_ok x \<Longrightarrow>
   frame_count s' = frame_count s + int (length ds)"
proof (induction ds arbitrary: s)
  case Nil
  then show ?case by simp
next
  case (Cons d ds)
  from Cons.prems(1) obtain b s1 where
    p: "process_frame cfg (logged (ReceiveFrame (got_frame d)) s) d = Inr (b, s1)"
    by (auto split: sum.splits)
  from process_frame_done [OF p] have c: "frame_count s1 = frame_count s + 1"
    by (simp add: logged_def)
  from process_frame_go_on [OF p] have b: "b = send_frame_ok d" .
  show ?case
  proof (cases ds)
    case Nil
    with Cons.prems(1) p c show ?thesis by (simp split: if_splits)
  next
    case (Cons d' ds')
    with Cons.prems(2) have ok: "send_frame_ok d" "\<forall>x\<in>set (butlast ds). send_frame_ok x"
      by simp_all
    with Cons.prems(1) p b have "receive_frames cfg s1 ds = Inr s'" by simp
    from Cons.IH [OF this ok(2)] c show ?thesis by simp
  qed
qed

text \<open>With the set-up done, \<open>main\<close> is the loop, the trailer and \<open>return 0\<close>.\<close>

lemma main_transcode: "setup_succeeds env \<Longrightarrow> main env input = transcode env input"
  by (auto simp: main_def setup_succeeds_def)

lemma main_returns_zero_unless_fault:
  assumes "setup_succeeds env"
  shows "(\<exists>s. main env input = Return 0 s \<and> last (trace s) = WriteTrailer) \<or>
         (\<exists>e s. main env input = Crash e s)"
  using assms
  by (auto simp: main_transcode transcode_def logged_def split: sum.splits)

text \<open>
  The index found by lines 47 to 53, when it is not \<open>-1\<close>, is the index of a stream of
  the input, and that stream is a video stream.
\<close>

lemma find_video_stream_index:
  "find_video_stream sts i \<noteq> - 1 \<Longrightarrow> 0 \<le> i \<Longrightarrow>
   i \<le> find_video_stream sts i \<and> find_video_stream sts i < i + int (length sts) \<and>
   codec_type (sts ! nat (find_video_stream sts i - i)) = AVMEDIA_TYPE_VIDEO"
proof (induction sts arbitrary: i)
  case Nil
  then show ?case by simp
next
  case (Cons st sts)
  show ?case
  proof (cases "codec_type st = AVMEDIA_TYPE_VIDEO")
    case True
    then show ?thesis by simp
  next
    case False
    with Cons.prems have n: "find_video_stream sts (i + 1) \<noteq> - 1" by simp
    from Cons.IH [OF n] Cons.prems(2)
    have 1: "i + 1 \<le> find_video_stream sts (i + 1)"
      "find_video_stream sts (i + 1) < i + 1 + int (length sts)"
      "codec_type (sts ! nat (find_video_stream sts (i + 1) - (i + 1))) = AVMEDIA_TYPE_VIDEO"
      by simp_all
    have "nat (find_video_stream sts (i + 1) - i) = Suc (nat (find_video_stream sts (i + 1) - (i + 1)))"
      using 1(1) by simp
    with 1 False show ?thesis by simp
  qed
qed

text \<open>
  Releases. A run of the loop that ends without a fault has released every packet it read
  and every packet the encoder produced, each once, unless it ended on a packet the
  decoder refused: that packet, the last one read, is not released.
\<close>

lemma unref_demuxed_append: "unref_demuxed (t @ u) = unref_demuxed t @ unref_demuxed u"
  by (induction t rule: unref_demuxed.induct) simp_all

lemma unref_encoded_append: "unref_encoded (t @ u) = unref_encoded t @ unref_encoded u"
  by (induction t rule: unref_encoded.induct) simp_all

lemmas unref_simps = logged_def unref_demuxed_append unref_encoded_append

lemma process_frame_unref:
  assumes "process_frame cfg s d = Inr (b, s')"
    and "unref_encoded (trace s) = [0..<packets_encoded s]"
  shows "unref_encoded (trace s') = [0..<packets_encoded s'] \<and>
         unref_demuxed (trace s') = unref_demuxed (trace s) \<and>
         packets_read s' = packets_read s \<and> trace s' \<noteq> []"
  using assms
  by (auto simp: process_frame_def Let_def unref_simps
      split: sum.splits if_splits option.splits)

lemma receive_frames_unref:
  "receive_frames cfg s ds = Inr s' \<Longrightarrow> unref_encoded (trace s) = [0..<packets_encoded s] \<Longrightarrow>
   trace s \<noteq> [] \<Longrightarrow>
   unref_encoded (trace s') = [0..<packets_encoded s'] \<and>
   unref_demuxed (trace s') = unref_demuxed (trace s) \<and>
   packets_read s' = packets_read s \<and> trace s' \<noteq> []"
proof (induction ds arbitrary: s)
  case Nil
  then show ?case by simp
next
  case (Cons d ds)
  let ?s0 = "logged (ReceiveFrame (got_frame d)) s"
  from Cons.prems(1) obtain b s1 where
    p: "process_frame cfg ?s0 d = Inr (b, s1)"
    by (auto split: sum.splits)
  have "unref_encoded (trace ?s0) = [0..<packets_encoded ?s0]"
    using Cons.prems(2) by (simp add: unref_simps)
  from process_frame_unref [OF p this]
  have 1: "unref_encoded (trace s1) = [0..<packets_encoded s1]"
    "unref_demuxed (trace s1) = unref_demuxed (trace s)"
    "packets_read s1 = packets_read s" "trace s1 \<noteq> []"
    by (simp_all add: unref_simps)
  show ?case
  proof (cases b)
    case True
    with Cons.prems(1) p have "receive_frames cfg s1 ds = Inr s'" by simp
    from Cons.IH [OF this 1(1,4)] 1 show ?thesis by simp
  next
    case False
    with Cons.prems(1) p have "s' = s1" by simp
    with 1 show ?thesis by simp
  qed
qed

lemma transcode_loop_released:
  "transcode_loop cfg s ps = Inr s' \<Longrightarrow> all_released s \<Longrightarrow>
   all_released s' \<or> all_but_refused_released s'"
proof (induction ps arbitrary: s)
  case Nil
  then show ?case by simp
next
  case (Cons p ps)
  let ?k = "packets_read s"
  let ?s1 = "logged (ReadFrame ?k) (s\<lparr>packets_read := ?k + 1\<rparr>)"
  let ?s2 = "logged (SendPacket ?k (send_packet_ok p)) ?s1"
  from Cons.prems(2) have dm: "unref_demuxed (trace s) = [0..<?k]"
    and en: "unref_encoded (trace s) = [0..<packets_encoded s]"
    by (simp_all add: all_released_def)
  show ?case
  proof (cases "stream_index (packet p) = video_stream_index cfg")
    case False
    let ?s = "logged (PacketUnref (Demuxed ?k)) ?s1"
    have "all_released ?s" using dm en by (simp add: all_released_def unref_simps)
    moreover have "transcode_loop cfg ?s ps = Inr s'"
      using Cons.prems(1) False by (simp add: Let_def)
    ultimately show ?thesis by (rule Cons.IH [rotated])
  next
    case True
    show ?thesis
    proof (cases "send_packet_ok p")
      case False
      with True Cons.prems(1) have "s' = ?s2" by (simp add: Let_def)
      then have "all_but_refused_released s'"
        using dm en False by (simp add: all_but_refused_released_def unref_simps)
      then show ?thesis ..
    next
      case ok: True
      with True Cons.prems(1) obtain s3 where
        r: "receive_frames cfg ?s2 (yields p) = Inr s3" and
        l: "transcode_loop cfg (logged (PacketUnref (Demuxed ?k)) s3) ps = Inr s'"
        by (auto simp: Let_def split: sum.splits)
      have "unref_encoded (trace ?s2) = [0..<packets_encoded ?s2]" "trace ?s2 \<noteq> []"
        using en by (simp_all add: unref_simps)
      from receive_frames_unref [OF r this]
      have "all_released (logged (PacketUnref (Demuxed ?k)) s3)"
        using dm by (simp add: all_released_def unref_simps)
      with l show ?thesis by (rule Cons.IH)
    qed
  qed
qed

lemma packets_released:
  assumes "transcode_loop cfg initial input = Inr s"
  shows "all_released s \<or> all_but_refused_released s"
  using assms by (rule transcode_loop_released) (simp add: all_released_def initial_def)

lemmas loop_defs =
  process_frame_def logged_def Let_def av_packet_rescale_ts_def av_rescale_q_int

lemmas example_defs =
  example_session_def accepted_frame_def refused_frame_def audio_packet_def
  video_packet_def refused_packet_def tiny_frame_def initial_def

lemmas run_defs = main_def transcode_def session_of_def example_env_def int_of_int64_def
  setup_succeeds_def example_input_def

section \<open>The transcode loop: claims\<close>

text \<open>
  C3, as stated, fails on the code in both of its cases. When \<open>avcodec_send_packet\<close>
  refuses a packet, the \<open>break\<close> of line 142 leaves the outer loop: the packet after it
  is never read. When \<open>avcodec_send_frame\<close> refuses a frame, the counter has already
  been incremented at line 147: it is 1 after the packet, not 0 as before it.
\<close>

theorem submission_failure_counterexample:
  "trace (final (transcode_loop example_session initial
                   [refused_packet, video_packet [accepted_frame]])) =
     [ReadFrame 0, SendPacket 0 False] \<and>
   frame_count initial = 0 \<and>
   frame_count (final (transcode_loop example_session initial
                   [video_packet [refused_frame, accepted_frame], audio_packet])) = 1"
  by (simp add: example_defs loop_defs renderer_defs arith_defs)

text \<open>
  C3, amended. When \<open>avcodec_send_packet\<close> fails on packet \<open>k\<close>, the processed-frame
  counter is unchanged from before packet \<open>k\<close> and the loop ends there, whatever packets
  follow. When \<open>avcodec_send_frame\<close> fails on a frame of packet \<open>k\<close>, the frames of
  packet \<open>k\<close> after it are not received, the counter holds one increment for each frame
  received up to and including the refused one, packet \<open>k\<close> is released and the outer
  loop continues with packet \<open>k + 1\<close>.
\<close>

theorem submission_failures:
  assumes "stream_index (packet p) = video_stream_index cfg"
  shows "let k = packets_read s;
             s1 = logged (ReadFrame k) (s\<lparr>packets_read := k + 1\<rparr>) in
     (\<not> send_packet_ok p \<longrightarrow>
        transcode_loop cfg s (p # ps) = Inr (logged (SendPacket k False) s1) \<and>
        frame_count (logged (SendPacket k False) s1) = frame_count s) \<and>
     (send_packet_ok p \<and> yields p = pre @ d # rest \<and>
      (\<forall>x\<in>set pre. send_frame_ok x) \<and> \<not> send_frame_ok d \<and>
      receive_frames cfg (logged (SendPacket k True) s1) (pre @ [d]) = Inr sd \<longrightarrow>
        frame_count sd = frame_count s + int (length pre) + 1 \<and>
        transcode_loop cfg s (p # ps) =
          transcode_loop cfg (logged (PacketUnref (Demuxed k)) sd) ps)"
proof -
  let ?k = "packets_read s"
  let ?s1 = "logged (ReadFrame ?k) (s\<lparr>packets_read := ?k + 1\<rparr>)"
  let ?s2 = "logged (SendPacket ?k True) ?s1"
  have refused: "transcode_loop cfg s (p # ps) = Inr (logged (SendPacket ?k False) ?s1) \<and>
        frame_count (logged (SendPacket ?k False) ?s1) = frame_count s"
    if "\<not> send_packet_ok p"
    using that assms by (simp add: Let_def logged_def)
  have accepted: "frame_count sd = frame_count s + int (length pre) + 1 \<and>
        transcode_loop cfg s (p # ps) =
          transcode_loop cfg (logged (PacketUnref (Demuxed ?k)) sd) ps"
    if ok: "send_packet_ok p" and y: "yields p = pre @ d # rest"
      and pre: "\<forall>x\<in>set pre. send_frame_ok x" and d: "\<not> send_frame_ok d"
      and r: "receive_frames cfg ?s2 (pre @ [d]) = Inr sd"
  proof -
    have "receive_frames cfg ?s2 (yields p) = Inr sd"
      using receive_frames_stop [OF d, of cfg ?s2 pre rest] y r by simp
    then have loop: "transcode_loop cfg s (p # ps) =
        transcode_loop cfg (logged (PacketUnref (Demuxed ?k)) sd) ps"
      using assms ok by (simp add: Let_def)
    have "frame_count sd = frame_count ?s2 + int (length (pre @ [d]))"
      using r pre by (intro receive_frames_count) simp_all
    then have "frame_count sd = frame_count s + int (length pre) + 1"
      by (simp add: logged_def)
    with loop show ?thesis by blast
  qed
  show ?thesis unfolding Let_def using refused accepted by blast
qed

theorem submission_failures_witness:
  "transcode_loop example_session initial [refused_packet, audio_packet] =
     Inr (logged (SendPacket 0 False) (logged (ReadFrame 0) (initial\<lparr>packets_read := 1\<rparr>))) \<and>
   frame_count (final (receive_frames example_session
       (logged (SendPacket 0 True) (logged (ReadFrame 0) (initial\<lparr>packets_read := 1\<rparr>)))
       [accepted_frame, refused_frame])) = 2 \<and>
   transcode_loop example_session initial
       [video_packet [accepted_frame, refused_frame, accepted_frame], audio_packet] =
     transcode_loop example_session
       (logged (PacketUnref (Demuxed 0))
          (final (receive_frames example_session
             (logged (SendPacket 0 True) (logged (ReadFrame 0) (initial\<lparr>packets_read := 1\<rparr>)))
             [accepted_frame, refused_frame])))
       [audio_packet]"
proof -
  let ?s2 = "logged (SendPacket 0 True) (logged (ReadFrame 0) (initial\<lparr>packets_read := 1\<rparr>))"
  let ?p = "video_packet [accepted_frame, refused_frame, accepted_frame]"
  have k: "packets_read initial = 0" by (simp add: initial_def)
  have v: "stream_index (packet refused_packet) = video_stream_index example_session"
    "stream_index (packet ?p) = video_stream_index example_session"
    by (simp_all add: example_defs)
  have r: "\<not> send_packet_ok refused_packet" by (simp add: refused_packet_def)
  have a: "send_packet_ok ?p"
    "yields ?p = [accepted_frame] @ refused_frame # [accepted_frame]"
    "\<forall>x\<in>set [accepted_frame]. send_frame_ok x" "\<not> send_frame_ok refused_frame"
    by (simp_all add: video_packet_def accepted_frame_def refused_frame_def)
  have e: "receive_frames example_session ?s2 ([accepted_frame] @ [refused_frame]) =
           Inr (final (receive_frames example_session ?s2 [accepted_frame, refused_frame]))"
    by (simp add: example_defs loop_defs renderer_defs arith_defs)
  have 1: "transcode_loop example_session initial [refused_packet, audio_packet] =
           Inr (logged (SendPacket 0 False) (logged (ReadFrame 0) (initial\<lparr>packets_read := 1\<rparr>)))"
    using submission_failures [OF v(1), where s = initial and ps = "[audio_packet]",
        unfolded Let_def k, THEN conjunct1] r by simp
  have 2: "frame_count (final (receive_frames example_session ?s2
              [accepted_frame, refused_frame])) = frame_count initial + int (length [accepted_frame]) + 1 \<and>
           transcode_loop example_session initial [?p, audio_packet] =
           transcode_loop example_session
             (logged (PacketUnref (Demuxed 0))
               (final (receive_frames example_session ?s2 [accepted_frame, refused_frame])))
             [audio_packet]"
    using submission_failures [OF v(2), where s = initial and pre = "[accepted_frame]"
        and d = refused_frame and rest = "[accepted_frame]" and ps = "[audio_packet]"
        and sd = "final (receive_frames example_session ?s2 [accepted_frame, refused_frame])",
        unfolded Let_def k, THEN conjunct2] a e
    by simp
  from 1 2 show ?thesis by (simp add: initial_def)
qed

text \<open>
  C4: in every run of the loop from the state of line 134, the renderer is called with
  the frame numbers 0, 1, 2, ... in this order, so the counter goes up by one per frame
  and is never set back; and the counter ends as the number of frames received from the
  decoder, however they were spread over the packets. In a run that stops on a fault,
  the frame it stops in has been received and is not counted.
\<close>

theorem frame_counter_counts_frames:
  "let r = transcode_loop cfg initial input; t = trace (final r) in
     bar_numbers t = map int [0..<length (bar_numbers t)] \<and>
     frame_count (final r) = int (length (received_pts t)) - (if isl r then 1 else 0) \<and>
     (\<not> isl r \<longrightarrow> length (bar_numbers t) = length (received_pts t))"
proof (cases "transcode_loop cfg initial input")
  case (Inl x)
  obtain e s where "x = (e, s)" by (cases x)
  with Inl transcode_loop_counted [OF counted_initial, of cfg input]
  show ?thesis by (simp add: counted_but_last_def)
next
  case (Inr s)
  with transcode_loop_counted [OF counted_initial, of cfg input]
  show ?thesis by (simp add: counted_def)
qed

theorem frame_counter_counts_frames_witness:
  "frame_count (final (transcode_loop example_session initial example_input)) = 3"
proof -
  let ?r = "transcode_loop example_session initial example_input"
  have n: "length (received_pts (trace (final ?r))) = 3" "\<not> isl ?r"
    by (simp_all add: example_defs example_input_def loop_defs renderer_defs arith_defs)
  have "frame_count (final ?r) =
        int (length (received_pts (trace (final ?r)))) - (if isl ?r then 1 else 0)"
    using frame_counter_counts_frames [of example_session example_input]
    by (simp only: Let_def)
  then show ?thesis by (simp only: n) simp
qed

text \<open>
  C5: the packet that \<open>avcodec_send_packet\<close> refuses is never released. The \<open>break\<close> of
  line 142 skips the \<open>av_packet_unref\<close> of line 169, which every other path through the
  loop body reaches: the run ends normally with one packet read and none released.
  \<open>packets_released\<close> shows that this is the only packet a run fails to release.
\<close>

theorem refused_packet_never_released:
  "main (example_env 10) [refused_packet] =
     Return 0 \<lparr>frame_count = 0, enc_time_base = \<lparr>num = 1, den = 30\<rparr>, packets_read = 1,
               packets_encoded = 0,
               trace = [ReadFrame 0, SendPacket 0 False, WriteTrailer]\<rparr>"
  by (simp add: run_defs example_defs loop_defs)

text \<open>
  The loop, for any session: the timestamps submitted to the encoder are those received
  from the decoder, rescaled from the session's input time base to the encoder's.
\<close>

lemma transcode_loop_pts_rescaled:
  assumes "trace s = []"
  shows "let r = transcode_loop cfg s input; t = trace (final r) in
     sent_pts t =
       map (\<lambda>p. av_rescale_q p (in_time_base cfg) (enc_time_base s))
           (take (length (sent_pts t)) (received_pts t)) \<and>
     length (sent_pts t) = length (received_pts t) - (if isl r then 1 else 0)"
proof -
  have start: "rescaled cfg (enc_time_base s) s"
    using assms by (simp add: rescaled_def)
  show ?thesis
  proof (cases "transcode_loop cfg s input")
    case (Inl x)
    obtain e s' where "x = (e, s')" by (cases x)
    with Inl transcode_loop_rescaled [OF start, of input]
    show ?thesis by (simp add: rescaled_but_last_def butlast_conv_take)
  next
    case (Inr s')
    with transcode_loop_rescaled [OF start, of input]
    show ?thesis by (simp add: rescaled_def)
  qed
qed

text \<open>
  C7: in every run of the program that gets past the set-up, the stream selected by
  lines 47 to 53 is a video stream of the input, and the timestamps of the frames
  submitted to the encoder are, in order, the timestamps of the frames received from
  the decoder rescaled from that stream's time base to the encoder's time base. Every
  received frame is submitted, except the one a fault stops the run in. The frame is
  submitted with the rescaled timestamp already in it.
\<close>

theorem pts_rescaled_before_encoding:
  assumes "setup_succeeds env"
  shows "let r = main env input; t = calls r;
             i = find_video_stream (streams env) 0;
             st = streams env ! nat i in
     0 \<le> i \<and> i < int (length (streams env)) \<and> codec_type st = AVMEDIA_TYPE_VIDEO \<and>
     (\<exists>tb. encoder_time_base r = Some tb \<and>
        sent_pts t =
          map (\<lambda>p. av_rescale_q p (time_base st) tb)
              (take (length (sent_pts t)) (received_pts t))) \<and>
     length (sent_pts t) =
       length (received_pts t) - (if exit_code r = None then 1 else 0)"
proof -
  let ?cfg = "session_of env"
  let ?i = "find_video_stream (streams env) 0"
  let ?tb = "\<lparr>num = 1, den = 30\<rparr>"
  from assms have "?i \<noteq> - 1" by (simp add: setup_succeeds_def)
  from find_video_stream_index [OF this]
  have idx: "0 \<le> ?i" "?i < int (length (streams env))"
    "codec_type (streams env ! nat ?i) = AVMEDIA_TYPE_VIDEO"
    by simp_all
  have tb: "in_time_base ?cfg = time_base (streams env ! nat ?i)"
    by (simp add: session_of_def Let_def)
  have m: "main env input = transcode env input"
    using assms by (rule main_transcode)
  have body: "(\<exists>tb. encoder_time_base (main env input) = Some tb \<and>
        sent_pts (calls (main env input)) =
          map (\<lambda>p. av_rescale_q p (time_base (streams env ! nat ?i)) tb)
              (take (length (sent_pts (calls (main env input))))
                 (received_pts (calls (main env input))))) \<and>
     length (sent_pts (calls (main env input))) =
       length (received_pts (calls (main env input))) -
         (if exit_code (main env input) = None then 1 else 0)"
  proof (cases "transcode_loop ?cfg initial input")
    case (Inl x)
    obtain e s where "x = (e, s)" by (cases x)
    with Inl transcode_loop_rescaled [OF rescaled_initial, of ?cfg input] tb
    show ?thesis
      by (simp add: m transcode_def rescaled_but_last_def butlast_conv_take)
  next
    case (Inr s)
    with transcode_loop_rescaled [OF rescaled_initial, of ?cfg input] tb
    show ?thesis
      by (simp add: m transcode_def rescaled_def trace_simps)
  qed
  show ?thesis unfolding Let_def
    by (intro conjI) (rule idx body [THEN conjunct1] body [THEN conjunct2])+
qed

theorem pts_rescaled_before_encoding_witness:
  "received_pts (calls (main (example_env 10) example_input)) = [6000, 6000, 6000] \<and>
   sent_pts (calls (main (example_env 10) example_input)) = [2, 2, 2]"
proof -
  let ?r = "main (example_env 10) example_input"
  let ?st = "streams (example_env 10) ! nat (find_video_stream (streams (example_env 10)) 0)"
  have ok: "setup_succeeds (example_env 10)"
    by (simp add: setup_succeeds_def example_env_def)
  have n: "received_pts (calls ?r) = [6000, 6000, 6000]"
    by (simp add: run_defs example_defs loop_defs renderer_defs arith_defs)
  have x: "exit_code ?r = Some 0" "encoder_time_base ?r = Some \<lparr>num = 1, den = 30\<rparr>"
    by (simp_all add: run_defs example_defs loop_defs renderer_defs arith_defs)
  have st: "time_base ?st = \<lparr>num = 1, den = 90000\<rparr>"
    by (simp add: example_env_def)
  note inst = pts_rescaled_before_encoding [OF ok, of example_input, unfolded Let_def]
  from inst have len: "length (sent_pts (calls ?r)) = 3"
    by (simp only: n x) simp
  from inst obtain tb where tb: "encoder_time_base ?r = Some tb"
    and s: "sent_pts (calls ?r) =
        map (\<lambda>p. av_rescale_q p (time_base ?st) tb)
          (take (length (sent_pts (calls ?r))) (received_pts (calls ?r)))"
    by blast
  from tb x(2) have "tb = \<lparr>num = 1, den = 30\<rparr>" by simp
  with s have "sent_pts (calls ?r) =
        map (\<lambda>p. av_rescale_q p \<lparr>num = 1, den = 90000\<rparr> \<lparr>num = 1, den = 30\<rparr>)
          (take 3 [6000, 6000, 6000])"
    by (simp only: len n st)
  then have "sent_pts (calls ?r) = [2, 2, 2]"
    by (simp add: av_rescale_q_int)
  with n show ?thesis by blast
qed

text \<open>
  C9: in every run that gets past the set-up, whatever the input's streams and time
  bases are, the encoder's time base is 1/30 when the run ends and was 1/30 at each
  frame: every timestamp submitted to the encoder is the received one rescaled from the
  video stream's time base to 1/30.
\<close>

theorem encoder_time_base_fixed:
  assumes "setup_succeeds env"
  shows "let r = main env input; t = calls r;
             st = streams env ! nat (find_video_stream (streams env) 0) in
     encoder_time_base r = Some \<lparr>num = 1, den = 30\<rparr> \<and>
     sent_pts t =
       map (\<lambda>p. av_rescale_q p (time_base st) \<lparr>num = 1, den = 30\<rparr>)
           (take (length (sent_pts t)) (received_pts t))"
proof -
  let ?cfg = "session_of env"
  have tb: "in_time_base ?cfg =
            time_base (streams env ! nat (find_video_stream (streams env) 0))"
    by (simp add: session_of_def Let_def)
  have m: "main env input = transcode env input"
    using assms by (rule main_transcode)
  show ?thesis
  proof (cases "transcode_loop ?cfg initial input")
    case (Inl x)
    obtain e s where "x = (e, s)" by (cases x)
    with Inl transcode_loop_rescaled [OF rescaled_initial, of ?cfg input] tb
    show ?thesis
      by (simp add: m transcode_def rescaled_but_last_def butlast_conv_take Let_def)
  next
    case (Inr s)
    with transcode_loop_rescaled [OF rescaled_initial, of ?cfg input] tb
    show ?thesis
      by (simp add: m transcode_def rescaled_def Let_def trace_simps)
  qed
qed

theorem encoder_time_base_fixed_witness:
  "encoder_time_base (main (example_env 10) example_input) = Some \<lparr>num = 1, den = 30\<rparr> \<and>
   sent_pts (calls (main (example_env 10) example_input)) = [2, 2, 2]"
proof -
  let ?r = "main (example_env 10) example_input"
  let ?st = "streams (example_env 10) ! nat (find_video_stream (streams (example_env 10)) 0)"
  have ok: "setup_succeeds (example_env 10)"
    by (simp add: setup_succeeds_def example_env_def)
  have n: "received_pts (calls ?r) = [6000, 6000, 6000]" "length (sent_pts (calls ?r)) = 3"
    by (simp_all add: run_defs example_defs loop_defs renderer_defs arith_defs)
  have st: "time_base ?st = \<lparr>num = 1, den = 90000\<rparr>"
    by (simp add: example_env_def)
  note inst = encoder_time_base_fixed [OF ok, of example_input, unfolded Let_def]
  have "sent_pts (calls ?r) =
        map (\<lambda>p. av_rescale_q p (time_base ?st) \<lparr>num = 1, den = 30\<rparr>)
          (take 3 [6000, 6000, 6000])"
    using inst [THEN conjunct2] by (simp only: n)
  then have "sent_pts (calls ?r) = [2, 2, 2]"
    by (simp only: st) (simp add: av_rescale_q_int)
  with inst [THEN conjunct1] show ?thesis by blast
qed

text \<open>
  C10: a run whose set-up succeeds does not always end with exit code 0 and the trailer.
  When the video stream reports no frame count (\<open>nb_frames = 0\<close>), the first decoded
  frame makes line 11 divide by zero: there is no exit code and no trailer. Apart from
  faults, \<open>main_returns_zero_unless_fault\<close> shows the claim.
\<close>

theorem zero_total_frames_crashes:
  "setup_succeeds (example_env 0) \<and>
   main (example_env 0) [video_packet [accepted_frame]] =
     Crash DivByZero
       \<lparr>frame_count = 0, enc_time_base = \<lparr>num = 1, den = 30\<rparr>, packets_read = 1,
         packets_encoded = 0,
         trace = [ReadFrame 0, SendPacket 0 True, ReceiveFrame (tiny_frame\<lparr>pts := 6000\<rparr>)]\<rparr> \<and>
   exit_code (main (example_env 0) [video_packet [accepted_frame]]) = None"
  by (simp add: run_defs example_defs loop_defs renderer_defs arith_defs)

end
